theory Spec2Isabelle
  imports Main "HOL-Library.Monad_Syntax"
begin

section \<open>Data model\<close>

text \<open>
  The \<^verbatim>\<open>Task\<close> interface of \<^verbatim>\<open>TaskCard.tsx\<close>. The string-literal unions are
  datatypes, an optional field is an \<open>option\<close> (\<open>None\<close> is \<^verbatim>\<open>undefined\<close>), and the
  \<^verbatim>\<open>suggestedTime\<close> property that the schedule optimizer spreads onto a task is a
  field of the record.
\<close>

datatype TaskType = Daily | Once | Flexible

datatype Frequency =
  FDaily | Weekdays | MondayToSaturday | Weekends
  | Monday | Tuesday | Wednesday | Thursday | Friday | Saturday | Sunday

datatype FlexibleDuration = Day | Week

datatype Priority = Low | Medium | High

datatype Category = Medicine | Appointment | Work | Family | Personal | School

record Task =
  id' :: string
  title :: string
  type' :: TaskType
  frequency :: "Frequency option"
  completed :: bool
  startTime :: "string option"
  endTime :: "string option"
  date :: "string option"
  flexibleDuration :: "FlexibleDuration option"
  priority :: "Priority option"
  category :: "Category option"
  suggestedTime :: "string option"

datatype ConflictType = Overlap | Adjacent | CategoryConflict

record TimeConflict =
  conflictingTask :: Task
  conflictType :: ConflictType
  message :: string

record ConflictCheckResult =
  hasConflicts :: bool
  conflicts :: "TimeConflict list"
  suggested :: "string option"

datatype Severity = SevNone | Warning | Error

text \<open>
  JavaScript truthiness of an optional string: \<^verbatim>\<open>undefined\<close> and the empty string are
  both falsy. The task dialogs pass \<^verbatim>\<open>endTime: ""\<close> for an end time left blank.
\<close>

definition truthy :: "string option \<Rightarrow> bool" where
  "truthy s = (case s of None \<Rightarrow> False | Some v \<Rightarrow> v \<noteq> [])"

section \<open>Time arithmetic\<close>

subsection \<open>Decimal numerals\<close>

definition isDigit :: "char \<Rightarrow> bool" where
  "isDigit c = (c \<in> set ''0123456789'')"

definition digitVal :: "char \<Rightarrow> nat" where
  "digitVal c = of_char c - 48"

text \<open>The digit of a value below ten (the only values it is applied to).\<close>

definition digitChar :: "nat \<Rightarrow> char" where
  "digitChar d = ''0123456789'' ! d"

definition stringToNat :: "string \<Rightarrow> nat" where
  "stringToNat s = foldl (\<lambda>acc c. 10 * acc + digitVal c) 0 s"

text \<open>
  \<^verbatim>\<open>Number(s)\<close> on the strings the planner handles. JavaScript numbers are doubles;
  every quantity computed here from a wall-clock time is an integer far below \<open>2^53\<close>,
  where double arithmetic is exact, so numbers are \<open>int\<close>. The model covers the
  non-empty strings of decimal digits, which is what a time field splits into. On any
  other string the result is \<open>None\<close>: the string is outside the model (JavaScript
  yields \<^verbatim>\<open>NaN\<close>, or reads a sign, a fraction, an exponent, a radix prefix, white space
  or the empty string as a number), and every function below passes \<open>None\<close> on.
\<close>

definition Number_js :: "string \<Rightarrow> int option" where
  "Number_js s = (if s \<noteq> [] \<and> list_all isDigit s then Some (int (stringToNat s)) else None)"

function natToString :: "nat \<Rightarrow> string" where
  "natToString n = (if n < 10 then [digitChar n] else natToString (n div 10) @ [digitChar (n mod 10)])"
  by pat_completeness auto
termination
  by (relation "measure (\<lambda>n. n)") auto

declare natToString.simps [simp del]

text \<open>\<^verbatim>\<open>Number.prototype.toString()\<close> on an integer.\<close>

definition toString :: "int \<Rightarrow> string" where
  "toString i = (if i < 0 then CHR ''-'' # natToString (nat (- i)) else natToString (nat i))"

text \<open>\<^verbatim>\<open>String.prototype.padStart(n, c)\<close> with a one-character filler.\<close>

definition padStart :: "nat \<Rightarrow> char \<Rightarrow> string \<Rightarrow> string" where
  "padStart n c s = replicate (n - length s) c @ s"

text \<open>\<^verbatim>\<open>String.prototype.split(c)\<close> with a one-character separator.\<close>

fun split_on :: "char \<Rightarrow> string \<Rightarrow> string list" where
  "split_on c [] = [[]]"
| "split_on c (x # xs) =
     (if x = c then [] # split_on c xs
      else (case split_on c xs of [] \<Rightarrow> [[x]] | y # ys \<Rightarrow> (x # y) # ys))"

subsection \<open>The two conversions\<close>

text \<open>
  \<^verbatim>\<open>timeToMinutes\<close> and \<^verbatim>\<open>minutesToTime\<close> are defined twice in the repository, in
  \<^verbatim>\<open>conflictDetection.ts\<close> and inside the \<^verbatim>\<open>Index\<close> page, with the same body up to the
  names of the locals; one definition stands for both. The array destructuring
  \<^verbatim>\<open>[hours, minutes] = time.split(':').map(Number)\<close> reads the first two parts and
  ignores any further one.
\<close>

definition timeToMinutes :: "string \<Rightarrow> int option" where
  "timeToMinutes time =
     (case map Number_js (split_on CHR '':'' time) of
        Some hours # Some minutes # _ \<Rightarrow> Some (hours * 60 + minutes)
      | _ \<Rightarrow> None)"

text \<open>
  \<^verbatim>\<open>Math.floor(minutes / 60)\<close> is \<open>div\<close> on \<open>int\<close>; the remainder operator
  \<^verbatim>\<open>%\<close> truncates towards zero and takes the sign of the dividend. The code computes
  on doubles. Up to \<^verbatim>\<open>Number.MAX_SAFE_INTEGER\<close> every integer is a double, the quotient
  by 60 is rounded by less than 1/60 and so has the floor of the exact quotient, and
  \<^verbatim>\<open>toString\<close> prints plain digits; there the functions on \<open>int\<close> below compute what
  the code computes. Beyond it the code rounds the quotient, and from \<open>10^21\<close> on it
  prints an exponent, which these functions do not follow.
\<close>

definition MAX_SAFE_INTEGER :: int where
  "MAX_SAFE_INTEGER = 2 ^ 53 - 1"

definition jsRem :: "int \<Rightarrow> int \<Rightarrow> int" where
  "jsRem a b = sgn a * (\<bar>a\<bar> mod \<bar>b\<bar>)"

definition minutesToTime :: "int \<Rightarrow> string" where
  "minutesToTime minutes =
     (let hours = minutes div 60;
          mins = jsRem minutes 60
      in padStart 2 CHR ''0'' (toString hours) @ '':'' @ padStart 2 CHR ''0'' (toString mins))"

section \<open>Conflict detection\<close>

text \<open>
  The end of an interval in minutes: \<^verbatim>\<open>end ? timeToMinutes(end) : startMin + 60\<close>.
\<close>

definition endMinutes :: "string option \<Rightarrow> int \<Rightarrow> int option" where
  "endMinutes end1 startMin =
     (case end1 of
        None \<Rightarrow> Some (startMin + 60)
      | Some e \<Rightarrow> if e = [] then Some (startMin + 60) else timeToMinutes e)"

definition doTimesOverlap ::
  "string \<Rightarrow> string option \<Rightarrow> string \<Rightarrow> string option \<Rightarrow> bool option" where
  "doTimesOverlap start1 end1 start2 end2 =
     do {
       start1Min \<leftarrow> timeToMinutes start1;
       end1Min \<leftarrow> endMinutes end1 start1Min;
       start2Min \<leftarrow> timeToMinutes start2;
       end2Min \<leftarrow> endMinutes end2 start2Min;
       Some (start1Min < end2Min \<and> start2Min < end1Min)
     }"

text \<open>
  \<^verbatim>\<open>shouldCompareTasks\<close> reads the clock
  (\<^verbatim>\<open>new Date().toISOString().split('T')[0]\<close>); the date it obtains is the parameter
  \<open>today\<close>, one value for a whole call of \<^verbatim>\<open>checkTimeConflicts\<close>.
\<close>

definition shouldCompareTasks :: "string \<Rightarrow> Task \<Rightarrow> Task \<Rightarrow> bool" where
  "shouldCompareTasks today task1 task2 =
     (if completed task1 \<or> completed task2 then False
      else if type' task1 = Flexible \<or> type' task2 = Flexible then False
      else if type' task1 = Daily \<and> type' task2 = Daily then frequency task1 = frequency task2
      else if type' task1 = Once \<and> type' task2 = Once then date task1 = date task2
      else if type' task1 = Daily \<and> type' task2 = Once then date task2 = Some today
      else if type' task1 = Once \<and> type' task2 = Daily then date task1 = Some today
      else False)"

text \<open>
  The callback of \<^verbatim>\<open>existingTasks.some(...)\<close> in \<^verbatim>\<open>findNextAvailableTime\<close>, run over
  the list from the left and stopping at the first task that overlaps the probe.
\<close>

fun hasConflict :: "string \<Rightarrow> Task \<Rightarrow> string \<Rightarrow> string \<Rightarrow> Task list \<Rightarrow> bool option" where
  "hasConflict today taskToCheck testTime testEndTime [] = Some False"
| "hasConflict today taskToCheck testTime testEndTime (existingTask # rest) =
     (if \<not> shouldCompareTasks today taskToCheck existingTask
      then hasConflict today taskToCheck testTime testEndTime rest
      else case startTime existingTask of
        None \<Rightarrow> hasConflict today taskToCheck testTime testEndTime rest
      | Some st \<Rightarrow>
          if st = [] then hasConflict today taskToCheck testTime testEndTime rest
          else do {
            b \<leftarrow> doTimesOverlap testTime (Some testEndTime) st (endTime existingTask);
            if b then Some True
            else hasConflict today taskToCheck testTime testEndTime rest
          })"

text \<open>
  The loop \<^verbatim>\<open>for (let i = 0; i < 24; i++)\<close>: the first argument counts the iterations
  that remain, and falling out of the loop returns the original string.
\<close>

fun probe :: "nat \<Rightarrow> string \<Rightarrow> Task \<Rightarrow> Task list \<Rightarrow> string \<Rightarrow> int \<Rightarrow> string option" where
  "probe 0 today taskToCheck existingTasks desiredStart currentTime = Some desiredStart"
| "probe (Suc n) today taskToCheck existingTasks desiredStart currentTime =
     (let testTime = minutesToTime currentTime;
          testEndTime = minutesToTime (currentTime + 60)
      in do {
        c \<leftarrow> hasConflict today taskToCheck testTime testEndTime existingTasks;
        if \<not> c then Some testTime
        else probe n today taskToCheck existingTasks desiredStart (currentTime + 30)
      })"

definition findNextAvailableTime :: "string \<Rightarrow> string \<Rightarrow> Task list \<Rightarrow> Task \<Rightarrow> string option" where
  "findNextAvailableTime today desiredStart existingTasks taskToCheck =
     do {
       desiredStartMin \<leftarrow> timeToMinutes desiredStart;
       probe 24 today taskToCheck existingTasks desiredStart desiredStartMin
     }"

text \<open>The template strings of the two messages; \<^verbatim>\<open>undefined\<close> prints as its name.\<close>

definition categoryName :: "Category option \<Rightarrow> string" where
  "categoryName c =
     (case c of
        None \<Rightarrow> ''undefined''
      | Some Medicine \<Rightarrow> ''medicine''
      | Some Appointment \<Rightarrow> ''appointment''
      | Some Work \<Rightarrow> ''work''
      | Some Family \<Rightarrow> ''family''
      | Some Personal \<Rightarrow> ''personal''
      | Some School \<Rightarrow> ''school'')"

definition mkConflict :: "Task \<Rightarrow> Task \<Rightarrow> string \<Rightarrow> TimeConflict" where
  "mkConflict newTask existingTask st =
     (let ct = (if category newTask = category existingTask then CategoryConflict else Overlap);
          msg = (if ct = CategoryConflict
                 then ''You have another '' @ categoryName (category existingTask) @ '' task at '' @ st
                 else ''You have another task at '' @ st)
      in \<lparr>conflictingTask = existingTask, conflictType = ct, message = msg\<rparr>)"

text \<open>
  The \<^verbatim>\<open>for ... of\<close> loop of \<^verbatim>\<open>checkTimeConflicts\<close>; \<open>newStart\<close> is the start time
  of the new task, already known to be truthy.
\<close>

fun collectConflicts :: "string \<Rightarrow> Task \<Rightarrow> string \<Rightarrow> Task list \<Rightarrow> TimeConflict list option" where
  "collectConflicts today newTask newStart [] = Some []"
| "collectConflicts today newTask newStart (existingTask # rest) =
     (if \<not> shouldCompareTasks today newTask existingTask
      then collectConflicts today newTask newStart rest
      else case startTime existingTask of
        None \<Rightarrow> collectConflicts today newTask newStart rest
      | Some st \<Rightarrow>
          if st = [] then collectConflicts today newTask newStart rest
          else do {
            b \<leftarrow> doTimesOverlap newStart (endTime newTask) st (endTime existingTask);
            cs \<leftarrow> collectConflicts today newTask newStart rest;
            Some (if b then mkConflict newTask existingTask st # cs else cs)
          })"

definition noConflicts :: ConflictCheckResult where
  "noConflicts = \<lparr>hasConflicts = False, conflicts = [], suggested = None\<rparr>"

definition checkTimeConflicts :: "string \<Rightarrow> Task \<Rightarrow> Task list \<Rightarrow> ConflictCheckResult option" where
  "checkTimeConflicts today newTask existingTasks =
     (case startTime newTask of
        None \<Rightarrow> Some noConflicts
      | Some newStart \<Rightarrow>
          if newStart = [] then Some noConflicts
          else do {
            cs \<leftarrow> collectConflicts today newTask newStart existingTasks;
            if cs \<noteq> []
            then do {
              s \<leftarrow> findNextAvailableTime today newStart existingTasks newTask;
              Some \<lparr>hasConflicts = True, conflicts = cs, suggested = Some s\<rparr>
            }
            else Some \<lparr>hasConflicts = False, conflicts = cs, suggested = None\<rparr>
          })"

definition getConflictSeverity :: "TimeConflict list \<Rightarrow> Severity" where
  "getConflictSeverity cs =
     (if length cs = 0 then SevNone
      else if list_ex (\<lambda>c. conflictType c = CategoryConflict) cs then Error
      else Warning)"

section \<open>Schedule optimizer\<close>

text \<open>
  \<^verbatim>\<open>optimizeSchedule\<close> of the \<^verbatim>\<open>Index\<close> page in its gap-based form. The objects
  \<^verbatim>\<open>{ start, end }\<close> are pairs of minutes, and a suggestion
  \<^verbatim>\<open>{ id, suggestedTime }\<close> is a pair of strings.
\<close>

type_synonym interval = "int \<times> int"

definition SLEEP_START_1 :: int where "SLEEP_START_1 = 23 * 60"
definition SLEEP_END_1 :: int where "SLEEP_END_1 = 24 * 60"
definition SLEEP_START_2 :: int where "SLEEP_START_2 = 0"
definition SLEEP_END_2 :: int where "SLEEP_END_2 = 6 * 60"
definition MORNING_START :: int where "MORNING_START = 6 * 60"
definition MORNING_END :: int where "MORNING_END = 7 * 60"
definition WORK_START :: int where "WORK_START = 7 * 60"
definition WORK_END :: int where "WORK_END = 23 * 60"

definition flexibleTasks :: "Task list \<Rightarrow> Task list" where
  "flexibleTasks tasks = filter (\<lambda>task. type' task = Flexible \<and> \<not> completed task) tasks"

text \<open>
  The callback of \<^verbatim>\<open>.map(...)\<close> that turns a task into its occupied interval. It runs
  after the filter on \<^verbatim>\<open>task.startTime\<close>, so the start is present.
\<close>

definition toInterval :: "Task \<Rightarrow> interval option" where
  "toInterval task =
     (case startTime task of
        None \<Rightarrow> None
      | Some st \<Rightarrow> do {
          s \<leftarrow> timeToMinutes st;
          e \<leftarrow> endMinutes (endTime task) s;
          Some (s, e)
        })"

text \<open>
  \<^verbatim>\<open>Array.prototype.sort\<close> is stable, and so is \<open>sort_key\<close>. A time string outside
  the model makes the whole list \<open>None\<close>: the comparator of the sort would return
  \<^verbatim>\<open>NaN\<close>, and the resulting order is left to the engine.
\<close>

definition scheduledTasks :: "Task list \<Rightarrow> interval list option" where
  "scheduledTasks tasks =
     map_option (sort_key fst)
       (those (map toInterval
          (filter (\<lambda>task. truthy (startTime task) \<and> \<not> completed task) tasks)))"

definition hasTaskIn :: "interval list \<Rightarrow> int \<Rightarrow> int \<Rightarrow> bool" where
  "hasTaskIn sched start end' = list_ex (\<lambda>t. fst t < end' \<and> snd t > start) sched"

text \<open>The three conditional \<^verbatim>\<open>push\<close> calls, in their order, and the second sort.\<close>

definition addVirtualTasks :: "interval list \<Rightarrow> interval list" where
  "addVirtualTasks sched0 =
     (let sched1 = (if \<not> hasTaskIn sched0 SLEEP_START_1 SLEEP_END_1
                    then sched0 @ [(SLEEP_START_1, SLEEP_END_1)] else sched0);
          sched2 = (if \<not> hasTaskIn sched1 SLEEP_START_2 SLEEP_END_2
                    then sched1 @ [(SLEEP_START_2, SLEEP_END_2)] else sched1);
          sched3 = (if \<not> hasTaskIn sched2 MORNING_START MORNING_END
                    then sched2 @ [(MORNING_START, MORNING_END)] else sched2)
      in sort_key fst sched3)"

text \<open>
  The loop \<^verbatim>\<open>for (const t of scheduledTasks)\<close> that collects the gaps, with
  \<^verbatim>\<open>lastEnd\<close> as an argument, followed by the slot after the last scheduled task.
\<close>

fun findGaps :: "int \<Rightarrow> interval list \<Rightarrow> interval list" where
  "findGaps lastEnd [] = (if WORK_END - lastEnd \<ge> 60 then [(lastEnd, WORK_END)] else [])"
| "findGaps lastEnd (t # ts) =
     (if fst t - lastEnd \<ge> 60 then [(lastEnd, fst t)] else [])
     @ findGaps (max lastEnd (snd t)) ts"

text \<open>The inner \<^verbatim>\<open>while\<close> loop that steps over slots shorter than an hour.\<close>

function skipSlots :: "interval list \<Rightarrow> nat \<Rightarrow> nat" where
  "skipSlots availableSlots slotIdx =
     (if slotIdx < length availableSlots
         \<and> snd (availableSlots ! slotIdx) - fst (availableSlots ! slotIdx) < 60
      then skipSlots availableSlots (slotIdx + 1)
      else slotIdx)"
  by pat_completeness auto
termination
  by (relation "measure (\<lambda>(availableSlots, slotIdx). length availableSlots - slotIdx)") auto

declare skipSlots.simps [simp del]

text \<open>
  The loop over the flexible tasks. \<^verbatim>\<open>availableSlots\<close> and \<^verbatim>\<open>slotIdx\<close> are the
  state it carries; \<^verbatim>\<open>break\<close> ends the list of suggestions.
\<close>

fun assignSlots :: "Task list \<Rightarrow> interval list \<Rightarrow> nat \<Rightarrow> (string \<times> string) list" where
  "assignSlots [] availableSlots slotIdx = []"
| "assignSlots (task # rest) availableSlots slotIdx =
     (let slotIdx' = skipSlots availableSlots slotIdx
      in if slotIdx' \<ge> length availableSlots then []
         else
           let slot = availableSlots ! slotIdx';
               suggestedTime' = minutesToTime (fst slot)
           in (id' task, suggestedTime')
              # assignSlots rest (availableSlots[slotIdx' := (fst slot + 60, snd slot)]) slotIdx')"

text \<open>The callback of \<^verbatim>\<open>tasks.map(...)\<close> that writes the suggestions back.\<close>

definition applySuggestion :: "(string \<times> string) list \<Rightarrow> Task \<Rightarrow> Task" where
  "applySuggestion suggestions task =
     (if type' task = Flexible \<and> \<not> completed task
      then (case find (\<lambda>s. fst s = id' task) suggestions of
              Some suggestion \<Rightarrow> task\<lparr>suggestedTime := Some (snd suggestion)\<rparr>
            | None \<Rightarrow> task\<lparr>suggestedTime := None\<rparr>)
      else task)"

text \<open>The occupied intervals, the free slots and the suggestions of one pass.\<close>

definition occupied :: "Task list \<Rightarrow> interval list option" where
  "occupied tasks = map_option addVirtualTasks (scheduledTasks tasks)"

definition availableSlots :: "Task list \<Rightarrow> interval list option" where
  "availableSlots tasks = map_option (findGaps WORK_START) (occupied tasks)"

definition suggestions :: "Task list \<Rightarrow> (string \<times> string) list option" where
  "suggestions tasks =
     map_option (\<lambda>slots. assignSlots (flexibleTasks tasks) slots 0) (availableSlots tasks)"

text \<open>
  The effects of a pass are a toast and, unless no flexible task is active, a call of
  \<^verbatim>\<open>setTasks\<close>; the result is the toast and the task list held afterwards.
\<close>

datatype Toast = NoFlexibleTasks | ScheduleOptimized nat

definition optimizeSchedule :: "Task list \<Rightarrow> (Toast \<times> Task list) option" where
  "optimizeSchedule tasks =
     (if length (flexibleTasks tasks) = 0 then Some (NoFlexibleTasks, tasks)
      else do {
        sugg \<leftarrow> suggestions tasks;
        Some (ScheduleOptimized (length sugg), map (applySuggestion sugg) tasks)
      })"

subsection \<open>The random form of the optimizer\<close>

text \<open>
  \<^verbatim>\<open>src/pages/Index.tsx\<close> holds an older \<^verbatim>\<open>optimizeSchedule\<close> that draws an hour at
  random for every active flexible task. The draws are a parameter: \<open>rnd k\<close> stands
  for \<^verbatim>\<open>Math.floor(Math.random() * hours.length)\<close> at the \<open>k\<close>-th flexible task, an
  index into \<^verbatim>\<open>hours\<close>, and is reduced modulo the length to express that range. A
  suggestion is here the task itself with the time written into it, and a task without
  a suggestion would be kept as it is.
\<close>

definition hours :: "int list" where
  "hours = [9, 10, 11, 14, 15, 16, 17]"

definition randomSuggestions :: "(nat \<Rightarrow> nat) \<Rightarrow> Task list \<Rightarrow> Task list" where
  "randomSuggestions rnd ftasks =
     map (\<lambda>(k, task).
            let randomHour = hours ! (rnd k mod length hours);
                time = padStart 2 CHR ''0'' (toString randomHour) @ '':00''
            in task\<lparr>suggestedTime := Some time\<rparr>)
       (enumerate 0 ftasks)"

definition applyRandomSuggestion :: "Task list \<Rightarrow> Task \<Rightarrow> Task" where
  "applyRandomSuggestion sugg task =
     (if type' task = Flexible \<and> \<not> completed task
      then (case find (\<lambda>s. id' s = id' task) sugg of
              Some suggestion \<Rightarrow> task\<lparr>suggestedTime := suggestedTime suggestion\<rparr>
            | None \<Rightarrow> task)
      else task)"

definition optimizeSchedule_random :: "(nat \<Rightarrow> nat) \<Rightarrow> Task list \<Rightarrow> Toast \<times> Task list" where
  "optimizeSchedule_random rnd tasks =
     (if length (flexibleTasks tasks) = 0 then (NoFlexibleTasks, tasks)
      else
        let sugg = randomSuggestions rnd (flexibleTasks tasks)
        in (ScheduleOptimized (length sugg), map (applyRandomSuggestion sugg) tasks))"

section \<open>Well-formed inputs and reference notions\<close>

text \<open>
  A time string as the time fields and the two conversions produce it: hours and
  minutes of one or two decimal digits each, separated by a colon.
\<close>

definition digits12 :: "string \<Rightarrow> bool" where
  "digits12 s = (s \<noteq> [] \<and> length s \<le> 2 \<and> list_all isDigit s)"

definition validTime :: "string \<Rightarrow> bool" where
  "validTime s =
     (case split_on CHR '':'' s of
        h # m # _ \<Rightarrow> digits12 h \<and> digits12 m
      | _ \<Rightarrow> False)"

definition validOpt :: "string option \<Rightarrow> bool" where
  "validOpt s = (case s of None \<Rightarrow> True | Some v \<Rightarrow> v = [] \<or> validTime v)"

definition validTask :: "Task \<Rightarrow> bool" where
  "validTask t = (validOpt (startTime t) \<and> validOpt (endTime t))"

text \<open>
  The interval a task occupies, in minutes, when it carries a start time; the end
  defaults to one hour after the start.
\<close>

definition taskInterval :: "Task \<Rightarrow> interval option" where
  "taskInterval t = (if truthy (startTime t) then toInterval t else None)"

text \<open>Half-open intervals \<open>[s1, e1)\<close> and \<open>[s2, e2)\<close> intersect.\<close>

definition overlaps :: "interval \<Rightarrow> interval \<Rightarrow> bool" where
  "overlaps a b = (fst a < snd b \<and> fst b < snd a)"

text \<open>
  A probe of the suggested-time search, stated on minutes: the hour that starts at
  minute \<open>t\<close> is blocked when it intersects the interval of an eligible existing task.
\<close>

definition probeBlocked :: "string \<Rightarrow> Task \<Rightarrow> Task list \<Rightarrow> int \<Rightarrow> bool" where
  "probeBlocked today newTask existingTasks t =
     list_ex (\<lambda>e. shouldCompareTasks today newTask e \<and>
                 (case taskInterval e of None \<Rightarrow> False | Some i \<Rightarrow> overlaps (t, t + 60) i))
       existingTasks"

text \<open>
  The end of the interval of a task is not earlier than its start. The task dialogs
  give the end-time field the start time as its minimum.
\<close>

definition endsAfterStart :: "Task \<Rightarrow> bool" where
  "endsAfterStart t = (case taskInterval t of None \<Rightarrow> True | Some i \<Rightarrow> fst i \<le> snd i)"

section \<open>Example tasks\<close>

text \<open>Tasks as the add-task dialog builds them, used to instantiate the theorems.\<close>

definition timedTask :: "string \<Rightarrow> string \<Rightarrow> string option \<Rightarrow> Category \<Rightarrow> Task" where
  "timedTask i st en cat =
     \<lparr>id' = i, title = ''Task '' @ i, type' = Daily, frequency = Some FDaily,
      completed = False, startTime = Some st, endTime = en, date = None,
      flexibleDuration = None, priority = None, category = Some cat, suggestedTime = None\<rparr>"

definition flexTask :: "string \<Rightarrow> string option \<Rightarrow> Task" where
  "flexTask i sg =
     \<lparr>id' = i, title = ''Task '' @ i, type' = Flexible, frequency = None,
      completed = False, startTime = None, endTime = None, date = None,
      flexibleDuration = Some Day, priority = None, category = Some Personal,
      suggestedTime = sg\<rparr>"

text \<open>
  Task lists: the scenario of two timed tasks and one flexible task; a working window
  that is fully booked, with a flexible task that carries an earlier suggestion; two
  flexible tasks; and a timed task whose end lies before its start.
\<close>

definition scenarioTasks :: "Task list" where
  "scenarioTasks =
     [timedTask ''1'' ''08:00'' (Some ''09:00'') Work,
      timedTask ''2'' ''12:00'' (Some ''13:00'') Work,
      flexTask ''3'' None]"

definition busyTasks :: "Task list" where
  "busyTasks = [timedTask ''1'' ''07:00'' (Some ''23:00'') Work, flexTask ''2'' (Some ''10:00'')]"

definition twoFlexTasks :: "Task list" where
  "twoFlexTasks =
     [timedTask ''1'' ''08:00'' (Some ''09:00'') Work,
      timedTask ''2'' ''12:00'' None Work,
      flexTask ''3'' None, flexTask ''4'' None]"

definition invertedTasks :: "Task list" where
  "invertedTasks =
     [timedTask ''1'' ''08:00'' (Some ''07:00'') Work,
      timedTask ''2'' ''10:00'' None Work,
      flexTask ''3'' None, flexTask ''4'' None]"




section \<open>Properties of the time arithmetic\<close>

lemma digit_cases: "d < 10 \<Longrightarrow> d \<in> {0,1,2,3,4,5,6,7,8,9::nat}"
  by auto

lemma digitVal_digitChar: "d < 10 \<Longrightarrow> digitVal (digitChar d) = d"
  using digit_cases [of d] by (auto simp: digitVal_def digitChar_def)

lemma isDigit_digitChar: "d < 10 \<Longrightarrow> isDigit (digitChar d)"
  using digit_cases [of d] by (auto simp: isDigit_def digitChar_def)

lemma isDigit_not_colon: "isDigit c \<Longrightarrow> c \<noteq> CHR '':''"
  by (auto simp: isDigit_def)

lemma stringToNat_snoc: "stringToNat (s @ [c]) = 10 * stringToNat s + digitVal c"
  by (simp add: stringToNat_def)

lemma natToString_digits: "list_all isDigit (natToString n)"
  by (induction n rule: natToString.induct)
     (subst natToString.simps, simp add: isDigit_digitChar)

lemma natToString_nonempty: "natToString n \<noteq> []"
  by (subst natToString.simps) simp

lemma stringToNat_natToString: "stringToNat (natToString n) = n"
proof (induction n rule: natToString.induct)
  case (1 n)
  show ?case
  proof (cases "n < 10")
    case True
    then show ?thesis
      by (subst natToString.simps) (simp add: stringToNat_def digitVal_digitChar)
  next
    case False
    with 1 have "stringToNat (natToString (n div 10)) = n div 10" by simp
    with False show ?thesis
      by (subst natToString.simps) (simp add: stringToNat_snoc digitVal_digitChar)
  qed
qed

lemma stringToNat_zeros: "stringToNat (replicate k CHR ''0'' @ s) = stringToNat s"
proof -
  have "foldl (\<lambda>acc c. 10 * acc + digitVal c) 0 (replicate k CHR ''0'') = 0"
    by (induction k) (simp_all add: digitVal_def)
  then show ?thesis by (simp add: stringToNat_def)
qed

lemma zeros_digits: "list_all isDigit (replicate k CHR ''0'')"
  by (induction k) (simp_all add: isDigit_def)

lemma pad_digits: "list_all isDigit (padStart 2 CHR ''0'' (natToString n))"
  by (simp add: padStart_def natToString_digits zeros_digits)

lemma Number_js_pad: "Number_js (padStart 2 CHR ''0'' (natToString n)) = Some (int n)"
proof -
  have "padStart 2 CHR ''0'' (natToString n) \<noteq> []"
    by (simp add: padStart_def natToString_nonempty)
  moreover have "stringToNat (padStart 2 CHR ''0'' (natToString n)) = n"
    by (simp add: padStart_def stringToNat_zeros stringToNat_natToString)
  ultimately show ?thesis
    by (simp add: Number_js_def pad_digits)
qed

lemma split_on_digits: "list_all isDigit s \<Longrightarrow> split_on CHR '':'' s = [s]"
  by (induction s) (auto simp: isDigit_not_colon)

lemma split_on_colon:
  "list_all isDigit a \<Longrightarrow> list_all isDigit b \<Longrightarrow> split_on CHR '':'' (a @ CHR '':'' # b) = [a, b]"
  by (induction a) (auto simp: isDigit_not_colon split_on_digits)

lemma minutesToTime_nonneg:
  assumes "0 \<le> m"
  shows "minutesToTime m =
    padStart 2 CHR ''0'' (natToString (nat (m div 60))) @ CHR '':'' #
    padStart 2 CHR ''0'' (natToString (nat (m mod 60)))"
proof -
  from assms have "\<not> m div 60 < 0" by simp
  moreover have "\<not> m mod 60 < 0" by simp
  moreover from assms have "jsRem m 60 = m mod 60"
    by (cases "m = 0") (simp_all add: jsRem_def)
  ultimately show ?thesis
    by (simp add: minutesToTime_def toString_def Let_def)
qed

lemma timeToMinutes_minutesToTime:
  assumes "0 \<le> m"
  shows "timeToMinutes (minutesToTime m) = Some m"
proof -
  have "0 \<le> m div 60" "0 \<le> m mod 60" using assms by simp_all
  then show ?thesis
    by (simp add: minutesToTime_nonneg [OF assms] timeToMinutes_def split_on_colon pad_digits Number_js_pad)
qed

lemmas print_defs =
  minutesToTime_def jsRem_def toString_def padStart_def natToString.simps digitChar_def

lemma natToString_length_small: "n < 10 \<Longrightarrow> length (natToString n) = 1"
  by (subst natToString.simps) simp

lemma natToString_length_100: "n < 100 \<Longrightarrow> length (natToString n) \<le> 2"
  by (subst natToString.simps) (simp add: natToString_length_small)

lemma hd_natToString: "0 < n \<Longrightarrow> hd (natToString n) \<noteq> CHR ''0''"
proof (induction n rule: natToString.induct)
  case (1 n)
  show ?case
  proof (cases "n < 10")
    case True
    with 1(2) digit_cases [of n] show ?thesis
      by (subst natToString.simps) (auto simp: digitChar_def)
  next
    case False
    then have "0 < n div 10" by simp
    with 1(1) False have "hd (natToString (n div 10)) \<noteq> CHR ''0''" by simp
    with False show ?thesis
      by (subst natToString.simps) (simp add: natToString_nonempty)
  qed
qed

lemma pad_length: "2 \<le> length (padStart 2 CHR ''0'' s)"
  by (simp add: padStart_def)

lemma pad_hd:
  assumes "2 < length (padStart 2 CHR ''0'' (natToString n))"
  shows "hd (padStart 2 CHR ''0'' (natToString n)) \<noteq> CHR ''0''"
proof -
  from assms have l: "2 < length (natToString n)" by (simp add: padStart_def split: if_splits)
  then have "\<not> n < 10" using natToString_length_small [of n] by auto
  then have "0 < n" by simp
  from hd_natToString [OF this] l show ?thesis by (simp add: padStart_def)
qed

lemma pad_length_100: "n < 100 \<Longrightarrow> length (padStart 2 CHR ''0'' (natToString n)) = 2"
  using natToString_length_100 [of n] by (simp add: padStart_def)

text \<open>
  Claim C8. For every non-negative number of minutes \<open>m\<close> up to
  \<^verbatim>\<open>Number.MAX_SAFE_INTEGER\<close>, the range on which the arithmetic of the code is exact,
  \<^verbatim>\<open>minutesToTime\<close> returns the hours \<open>m div 60\<close> and the minutes \<open>m mod 60\<close> as
  decimal numerals padded with zeros to two digits, joined by a colon. Nothing is
  reduced modulo 1440: from 1440 minutes on the hour component is at least 24, and 1500
  minutes print as \<^verbatim>\<open>25:00\<close>.
\<close>

theorem minutesToTime_no_wrap:
  assumes "0 \<le> m" and "m \<le> MAX_SAFE_INTEGER"
  shows "\<exists>hs ms. minutesToTime m = hs @ '':'' @ ms
     \<and> list_all isDigit hs \<and> list_all isDigit ms
     \<and> 2 \<le> length hs \<and> (2 < length hs \<longrightarrow> hd hs \<noteq> CHR ''0'') \<and> length ms = 2
     \<and> Number_js hs = Some (m div 60) \<and> Number_js ms = Some (m mod 60)
     \<and> (1440 \<le> m \<longrightarrow> (\<exists>h. Number_js hs = Some h \<and> 24 \<le> h))"
proof -
  let ?hs = "padStart 2 CHR ''0'' (natToString (nat (m div 60)))"
  let ?ms = "padStart 2 CHR ''0'' (natToString (nat (m mod 60)))"
  from assms have h0: "0 \<le> m div 60" by simp
  have m0: "0 \<le> m mod 60" "nat (m mod 60) < 100"
    using pos_mod_bound [of 60 m] by simp_all
  have "minutesToTime m = ?hs @ '':'' @ ?ms"
    by (simp add: minutesToTime_nonneg [OF assms(1)])
  moreover have "list_all isDigit ?hs" "list_all isDigit ?ms" by (rule pad_digits)+
  moreover have "2 \<le> length ?hs" by (rule pad_length)
  moreover have "2 < length ?hs \<longrightarrow> hd ?hs \<noteq> CHR ''0''" using pad_hd by blast
  moreover have "length ?ms = 2" using m0(2) by (rule pad_length_100)
  moreover have nh: "Number_js ?hs = Some (m div 60)" using h0 by (simp add: Number_js_pad)
  moreover have "Number_js ?ms = Some (m mod 60)" using m0(1) by (simp add: Number_js_pad)
  moreover have "1440 \<le> m \<longrightarrow> (\<exists>h. Number_js ?hs = Some h \<and> 24 \<le> h)"
  proof
    assume "1440 \<le> m"
    then have "24 \<le> m div 60" by simp
    with nh show "\<exists>h. Number_js ?hs = Some h \<and> 24 \<le> h" by simp
  qed
  ultimately show ?thesis by blast
qed

theorem minutesToTime_no_wrap_witness:
  "(0::int) \<le> 1500 \<and> 1500 \<le> MAX_SAFE_INTEGER \<and> minutesToTime 1500 = ''25:00''
   \<and> (\<exists>hs ms. minutesToTime 1500 = hs @ '':'' @ ms
     \<and> list_all isDigit hs \<and> list_all isDigit ms
     \<and> 2 \<le> length hs \<and> (2 < length hs \<longrightarrow> hd hs \<noteq> CHR ''0'') \<and> length ms = 2
     \<and> Number_js hs = Some (1500 div 60) \<and> Number_js ms = Some (1500 mod 60)
     \<and> (1440 \<le> (1500::int) \<longrightarrow> (\<exists>h. Number_js hs = Some h \<and> 24 \<le> h)))"
proof (intro conjI)
  show "(0::int) \<le> 1500" by simp
  show "1500 \<le> MAX_SAFE_INTEGER" by (simp add: MAX_SAFE_INTEGER_def)
  show "minutesToTime 1500 = ''25:00''" by (simp add: print_defs)
  show "\<exists>hs ms. minutesToTime 1500 = hs @ '':'' @ ms
     \<and> list_all isDigit hs \<and> list_all isDigit ms
     \<and> 2 \<le> length hs \<and> (2 < length hs \<longrightarrow> hd hs \<noteq> CHR ''0'') \<and> length ms = 2
     \<and> Number_js hs = Some (1500 div 60) \<and> Number_js ms = Some (1500 mod 60)
     \<and> (1440 \<le> (1500::int) \<longrightarrow> (\<exists>h. Number_js hs = Some h \<and> 24 \<le> h))"
    by (rule minutesToTime_no_wrap) (simp_all add: MAX_SAFE_INTEGER_def)
qed

section \<open>Properties of the conflict detector\<close>

subsection \<open>Parsing and probing\<close>

lemma minutesToTime_nonempty: "minutesToTime m \<noteq> []"
  by (simp add: minutesToTime_def Let_def)

lemma digits12_Number: "digits12 s \<Longrightarrow> \<exists>n. Number_js s = Some n \<and> 0 \<le> n"
  by (simp add: digits12_def Number_js_def)

lemma validTime_parse:
  assumes "validTime s"
  shows "\<exists>m. timeToMinutes s = Some m \<and> 0 \<le> m"
proof -
  from assms obtain h m r where sp: "split_on CHR '':'' s = h # m # r"
    and d: "digits12 h" "digits12 m"
    by (auto simp: validTime_def split: list.splits)
  from digits12_Number [OF d(1)] obtain a where a: "Number_js h = Some a" "0 \<le> a" by blast
  from digits12_Number [OF d(2)] obtain b where b: "Number_js m = Some b" "0 \<le> b" by blast
  from sp a b show ?thesis by (simp add: timeToMinutes_def)
qed

lemma endMinutes_valid:
  assumes "validOpt e"
  shows "\<exists>m. endMinutes e s = Some m"
  using assms validTime_parse
  by (auto simp: endMinutes_def validOpt_def split: option.splits)

lemma doTimesOverlap_valid:
  assumes "validTime s1" "validOpt e1" "validTime s2" "validOpt e2"
  shows "\<exists>a b c d. timeToMinutes s1 = Some a \<and> endMinutes e1 a = Some b \<and>
     timeToMinutes s2 = Some c \<and> endMinutes e2 c = Some d \<and>
     doTimesOverlap s1 e1 s2 e2 = Some (a < d \<and> c < b)"
proof -
  from validTime_parse [OF assms(1)] obtain a where a: "timeToMinutes s1 = Some a" by blast
  from endMinutes_valid [OF assms(2)] obtain b where b: "endMinutes e1 a = Some b" by blast
  from validTime_parse [OF assms(3)] obtain c where c: "timeToMinutes s2 = Some c" by blast
  from endMinutes_valid [OF assms(4)] obtain d where d: "endMinutes e2 c = Some d" by blast
  from a b c d show ?thesis by (simp add: doTimesOverlap_def)
qed

lemma doTimesOverlap_sym: "doTimesOverlap s2 e2 s1 e1 = doTimesOverlap s1 e1 s2 e2"
  by (cases "timeToMinutes s1"; cases "timeToMinutes s2")
     (auto simp: doTimesOverlap_def split: Option.bind_splits)

lemma taskInterval_valid:
  assumes "validTask e" "startTime e = Some st" "st \<noteq> []"
  shows "\<exists>s en. taskInterval e = Some (s, en) \<and> timeToMinutes st = Some s
     \<and> endMinutes (endTime e) s = Some en"
proof -
  from assms have "validTime st" by (simp add: validTask_def validOpt_def)
  from validTime_parse [OF this] obtain s where s: "timeToMinutes st = Some s" by blast
  from assms have "validOpt (endTime e)" by (simp add: validTask_def)
  from endMinutes_valid [OF this] obtain en where en: "endMinutes (endTime e) s = Some en" by blast
  from s en assms show ?thesis by (simp add: taskInterval_def toInterval_def truthy_def)
qed

text \<open>
  A probe goes through the two conversions and back; on well-formed tasks the callback
  of the search computes \<open>probeBlocked\<close>.
\<close>

lemma hasConflict_probe:
  assumes "\<forall>e\<in>set ex. validTask e" "0 \<le> t"
  shows "hasConflict today new (minutesToTime t) (minutesToTime (t + 60)) ex
     = Some (probeBlocked today new ex t)"
  using assms(1)
proof (induction ex)
  case Nil
  then show ?case by (simp add: probeBlocked_def)
next
  case (Cons e ex)
  then have IH: "hasConflict today new (minutesToTime t) (minutesToTime (t + 60)) ex
     = Some (probeBlocked today new ex t)" by simp
  have pb: "probeBlocked today new (e # ex) t =
     ((shouldCompareTasks today new e \<and>
        (case taskInterval e of None \<Rightarrow> False | Some i \<Rightarrow> overlaps (t, t + 60) i))
      \<or> probeBlocked today new ex t)"
    by (simp add: probeBlocked_def)
  show ?case
  proof (cases "shouldCompareTasks today new e \<and> truthy (startTime e)")
    case False
    then show ?thesis using IH
      by (auto simp: pb taskInterval_def truthy_def split: option.splits)
  next
    case True
    then obtain st where st: "startTime e = Some st" "st \<noteq> []"
      by (auto simp: truthy_def split: option.splits)
    from Cons.prems have "validTask e" by simp
    from taskInterval_valid [OF this st] obtain s en where
      ti: "taskInterval e = Some (s, en)" "timeToMinutes st = Some s"
      "endMinutes (endTime e) s = Some en" by blast
    from assms(2) have rt: "timeToMinutes (minutesToTime t) = Some t"
      "timeToMinutes (minutesToTime (t + 60)) = Some (t + 60)"
      by (simp_all add: timeToMinutes_minutesToTime)
    have "doTimesOverlap (minutesToTime t) (Some (minutesToTime (t + 60))) st (endTime e)
      = Some (overlaps (t, t + 60) (s, en))"
      using ti rt by (simp add: doTimesOverlap_def endMinutes_def minutesToTime_nonempty overlaps_def)
    with True st ti IH show ?thesis
      by (simp add: pb)
  qed
qed

lemma probe_exhausted:
  assumes "\<forall>e\<in>set ex. validTask e" "0 \<le> cur"
    and "\<forall>k<n. probeBlocked today new ex (cur + 30 * int k)"
  shows "probe n today new ex d cur = Some d"
  using assms(2,3)
proof (induction n arbitrary: cur)
  case 0
  then show ?case by simp
next
  case (Suc n)
  from Suc.prems(2) have b0: "probeBlocked today new ex cur" by force
  have "\<forall>k<n. probeBlocked today new ex (cur + 30 + 30 * int k)"
  proof (intro allI impI)
    fix k assume "k < n"
    then have "probeBlocked today new ex (cur + 30 * int (Suc k))" using Suc.prems(2) by blast
    then show "probeBlocked today new ex (cur + 30 + 30 * int k)" by (simp add: algebra_simps)
  qed
  with Suc.IH [of "cur + 30"] Suc.prems(1)
  have "probe n today new ex d (cur + 30) = Some d" by simp
  with b0 Suc.prems(1) show ?case
    by (simp add: hasConflict_probe [OF assms(1)] Let_def)
qed

lemma probe_found:
  assumes "\<forall>e\<in>set ex. validTask e" "0 \<le> cur"
    and "k < n" "\<not> probeBlocked today new ex (cur + 30 * int k)"
    and "\<forall>j<k. probeBlocked today new ex (cur + 30 * int j)"
  shows "probe n today new ex d cur = Some (minutesToTime (cur + 30 * int k))"
  using assms(2-)
proof (induction n arbitrary: cur k)
  case 0
  then show ?case by simp
next
  case (Suc n)
  show ?case
  proof (cases k)
    case 0
    with Suc.prems show ?thesis
      by (simp add: hasConflict_probe [OF assms(1)] Let_def)
  next
    case (Suc k')
    from Suc.prems(4) Suc have b0: "probeBlocked today new ex cur" by force
    have "\<forall>j<k'. probeBlocked today new ex (cur + 30 + 30 * int j)"
    proof (intro allI impI)
      fix j assume "j < k'"
      then have "Suc j < k" using Suc by simp
      with Suc.prems(4) have "probeBlocked today new ex (cur + 30 * int (Suc j))" by blast
      then show "probeBlocked today new ex (cur + 30 + 30 * int j)" by (simp add: algebra_simps)
    qed
    moreover have "\<not> probeBlocked today new ex (cur + 30 + 30 * int k')"
      using Suc.prems(3) Suc by (simp add: algebra_simps)
    moreover have "k' < n" using Suc.prems(2) Suc by simp
    ultimately have "probe n today new ex d (cur + 30) = Some (minutesToTime (cur + 30 + 30 * int k'))"
      using Suc.IH [of "cur + 30" k'] Suc.prems(1) by simp
    with b0 Suc Suc.prems(1) show ?thesis
      by (simp add: hasConflict_probe [OF assms(1)] Let_def algebra_simps)
  qed
qed

subsection \<open>The result of a check\<close>

lemma collectConflicts_skip:
  "\<not> (shouldCompareTasks today new e \<and> truthy (startTime e)) \<Longrightarrow>
     collectConflicts today new st (e # ex) = collectConflicts today new st ex"
  by (auto simp: truthy_def split: option.splits)

lemma collectConflicts_props:
  "collectConflicts today new st ex = Some cs \<Longrightarrow>
     \<forall>c\<in>set cs. conflictingTask c \<in> set ex
          \<and> shouldCompareTasks today new (conflictingTask c)
          \<and> (conflictType c = CategoryConflict \<longleftrightarrow> category new = category (conflictingTask c))"
proof (induction ex arbitrary: cs)
  case Nil
  then show ?case by simp
next
  case (Cons e ex)
  show ?case
  proof (cases "shouldCompareTasks today new e \<and> truthy (startTime e)")
    case False
    from Cons.prems have "collectConflicts today new st ex = Some cs"
      unfolding collectConflicts_skip [OF False] .
    from Cons.IH [OF this] show ?thesis by auto
  next
    case True
    then obtain est where est: "startTime e = Some est" "est \<noteq> []"
      by (auto simp: truthy_def split: option.splits)
    with True Cons.prems obtain b cs' where
      b: "doTimesOverlap st (endTime new) est (endTime e) = Some b"
      and cs': "collectConflicts today new st ex = Some cs'"
      and cs: "cs = (if b then mkConflict new e est # cs' else cs')"
      by (auto split: Option.bind_splits)
    from Cons.IH [OF cs'] True cs show ?thesis
      by (auto simp: mkConflict_def Let_def)
  qed
qed

lemma collectConflicts_total:
  assumes "validTime st" "validOpt (endTime new)" "\<forall>e\<in>set ex. validTask e"
  shows "\<exists>cs. collectConflicts today new st ex = Some cs"
  using assms(3)
proof (induction ex)
  case Nil
  then show ?case by simp
next
  case (Cons e ex)
  then obtain cs where cs: "collectConflicts today new st ex = Some cs" by auto
  show ?case
  proof (cases "shouldCompareTasks today new e \<and> truthy (startTime e)")
    case False
    with cs show ?thesis
      by (auto simp: truthy_def split: option.splits)
  next
    case True
    then obtain est where est: "startTime e = Some est" "est \<noteq> []"
      by (auto simp: truthy_def split: option.splits)
    from Cons.prems est have v: "validTime est" "validOpt (endTime e)"
      by (simp_all add: validTask_def validOpt_def)
    from doTimesOverlap_valid [OF assms(1,2) v] obtain b where
      b: "doTimesOverlap st (endTime new) est (endTime e) = Some b" by blast
    from True est b cs show ?thesis by simp
  qed
qed

lemma collectConflicts_ineligible:
  "\<forall>e\<in>set ex. \<not> shouldCompareTasks today new e \<Longrightarrow> collectConflicts today new st ex = Some []"
  by (induction ex) simp_all

lemma probe_total:
  assumes "\<forall>e\<in>set ex. validTask e" "0 \<le> cur"
  shows "\<exists>s. probe n today new ex d cur = Some s"
  using assms(2)
proof (induction n arbitrary: cur)
  case 0
  then show ?case by simp
next
  case (Suc n)
  from Suc.IH [of "cur + 30"] Suc.prems obtain s where
    "probe n today new ex d (cur + 30) = Some s" by auto
  with Suc.prems show ?case
    by (simp add: hasConflict_probe [OF assms(1)] Let_def)
qed

lemma checkTimeConflicts_falsy:
  "\<not> truthy (startTime new) \<Longrightarrow>
     checkTimeConflicts today new ex = Some \<lparr>hasConflicts = False, conflicts = [], suggested = None\<rparr>"
  by (auto simp: checkTimeConflicts_def noConflicts_def truthy_def split: option.splits)

lemma checkTimeConflicts_start:
  assumes "startTime new = Some st" "st \<noteq> []"
  shows "checkTimeConflicts today new ex =
     do {
       cs \<leftarrow> collectConflicts today new st ex;
       if cs \<noteq> []
       then do {
         m0 \<leftarrow> timeToMinutes st;
         s \<leftarrow> probe 24 today new ex st m0;
         Some \<lparr>hasConflicts = True, conflicts = cs, suggested = Some s\<rparr>
       }
       else Some \<lparr>hasConflicts = False, conflicts = cs, suggested = None\<rparr>
     }"
  using assms by (simp add: checkTimeConflicts_def findNextAvailableTime_def cong: if_cong)

lemma checkTimeConflicts_valid:
  assumes "validTask new" "\<forall>e\<in>set ex. validTask e" "startTime new = Some st" "st \<noteq> []"
  shows "\<exists>cs m0 s. collectConflicts today new st ex = Some cs \<and> timeToMinutes st = Some m0
     \<and> 0 \<le> m0 \<and> probe 24 today new ex st m0 = Some s
     \<and> checkTimeConflicts today new ex =
         Some \<lparr>hasConflicts = (cs \<noteq> []), conflicts = cs,
               suggested = (if cs \<noteq> [] then Some s else None)\<rparr>"
proof -
  from assms have v: "validTime st" "validOpt (endTime new)"
    by (simp_all add: validTask_def validOpt_def)
  from collectConflicts_total [OF v assms(2)] obtain cs where
    cs: "collectConflicts today new st ex = Some cs" by blast
  from validTime_parse [OF v(1)] obtain m0 where m0: "timeToMinutes st = Some m0" "0 \<le> m0"
    by blast
  from probe_total [OF assms(2) m0(2)] obtain s where s: "probe 24 today new ex st m0 = Some s"
    by blast
  from cs m0 s show ?thesis
    by (simp add: checkTimeConflicts_start [OF assms(3,4)])
qed

lemma checkTimeConflicts_total:
  assumes "validTask new" "\<forall>e\<in>set ex. validTask e"
  shows "\<exists>r. checkTimeConflicts today new ex = Some r"
proof (cases "truthy (startTime new)")
  case False
  then show ?thesis by (simp add: checkTimeConflicts_falsy)
next
  case True
  then obtain st where "startTime new = Some st" "st \<noteq> []"
    by (auto simp: truthy_def split: option.splits)
  from checkTimeConflicts_valid [OF assms this] show ?thesis by blast
qed

lemma checkTimeConflicts_conflicts:
  assumes "checkTimeConflicts today new ex = Some r"
  shows "hasConflicts r = (conflicts r \<noteq> []) \<and>
    (\<forall>c\<in>set (conflicts r). conflictingTask c \<in> set ex
          \<and> shouldCompareTasks today new (conflictingTask c)
          \<and> (conflictType c = CategoryConflict \<longleftrightarrow> category new = category (conflictingTask c)))"
proof (cases "truthy (startTime new)")
  case False
  with assms show ?thesis by (auto simp: checkTimeConflicts_falsy)
next
  case True
  then obtain st where st: "startTime new = Some st" "st \<noteq> []"
    by (auto simp: truthy_def split: option.splits)
  from assms obtain cs where cs: "collectConflicts today new st ex = Some cs"
    and r: "conflicts r = cs" "hasConflicts r = (cs \<noteq> [])"
    by (auto simp: checkTimeConflicts_start [OF st] split: Option.bind_splits if_splits)
  from collectConflicts_props [OF cs] r show ?thesis by simp
qed

lemma getConflictSeverity_cases:
  "(getConflictSeverity cs = Error \<longleftrightarrow> (\<exists>c\<in>set cs. conflictType c = CategoryConflict))
   \<and> (getConflictSeverity cs = Warning \<longleftrightarrow>
        cs \<noteq> [] \<and> \<not> (\<exists>c\<in>set cs. conflictType c = CategoryConflict))
   \<and> (getConflictSeverity cs = SevNone \<longleftrightarrow> cs = [])"
  by (cases cs) (auto simp: getConflictSeverity_def list_ex_iff)

subsection \<open>The claims on conflict detection\<close>

text \<open>
  Claim C1. When \<^verbatim>\<open>checkTimeConflicts\<close> finds a conflict for a task that starts at
  minute \<open>m0\<close>, the suggested time is found by probing the starts \<open>m0 + 30 * k\<close> for
  \<open>k = 0, ..., 23\<close> in order, each as an interval of one hour against every eligible
  existing task: it is the first probe that is not blocked, and the original start
  string when all 24 probes are blocked. A suggestion that differs from the input is
  therefore the time \<open>m0 + 30 * k\<close> for some \<open>k < 24\<close>. Without a conflict there is no
  suggestion.
\<close>

theorem suggestedTime_probing:
  assumes "validTask newTask" and "\<forall>e\<in>set existingTasks. validTask e"
    and "startTime newTask = Some st" and "st \<noteq> []"
  shows "\<exists>r m0. checkTimeConflicts today newTask existingTasks = Some r
      \<and> timeToMinutes st = Some m0
      \<and> hasConflicts r = (conflicts r \<noteq> [])
      \<and> (\<not> hasConflicts r \<longrightarrow> suggested r = None)
      \<and> (hasConflicts r \<and> (\<forall>k<24. probeBlocked today newTask existingTasks (m0 + 30 * int k))
            \<longrightarrow> suggested r = Some st)
      \<and> (\<forall>k<24. hasConflicts r
              \<and> \<not> probeBlocked today newTask existingTasks (m0 + 30 * int k)
              \<and> (\<forall>j<k. probeBlocked today newTask existingTasks (m0 + 30 * int j))
            \<longrightarrow> suggested r = Some (minutesToTime (m0 + 30 * int k))
               \<and> timeToMinutes (minutesToTime (m0 + 30 * int k)) = Some (m0 + 30 * int k))
      \<and> (\<forall>s. suggested r = Some s \<and> s \<noteq> st \<longrightarrow>
            (\<exists>k<24. timeToMinutes s = Some (m0 + 30 * int k)))"
proof -
  let ?B = "\<lambda>k. probeBlocked today newTask existingTasks k"
  from checkTimeConflicts_valid [OF assms] obtain cs m0 s where
    cs: "collectConflicts today newTask st existingTasks = Some cs"
    and m0: "timeToMinutes st = Some m0" "0 \<le> m0"
    and s: "probe 24 today newTask existingTasks st m0 = Some s"
    and r: "checkTimeConflicts today newTask existingTasks =
         Some \<lparr>hasConflicts = (cs \<noteq> []), conflicts = cs,
               suggested = (if cs \<noteq> [] then Some s else None)\<rparr>"
    by blast
  let ?r = "\<lparr>hasConflicts = (cs \<noteq> []), conflicts = cs,
               suggested = (if cs \<noteq> [] then Some s else None)\<rparr>"
  have all: "(\<forall>k<24. ?B (m0 + 30 * int k)) \<Longrightarrow> s = st"
    using probe_exhausted [OF assms(2) m0(2), of 24 today newTask st] s by simp
  have found: "\<And>k. k < 24 \<Longrightarrow> \<not> ?B (m0 + 30 * int k) \<Longrightarrow> \<forall>j<k. ?B (m0 + 30 * int j)
      \<Longrightarrow> s = minutesToTime (m0 + 30 * int k)"
    using probe_found [OF assms(2) m0(2), of _ 24 today newTask st] s by simp
  have rt: "\<And>k. timeToMinutes (minutesToTime (m0 + 30 * int k)) = Some (m0 + 30 * int k)"
    using m0(2) by (simp add: timeToMinutes_minutesToTime)
  have bound: "s \<noteq> st \<Longrightarrow> \<exists>k<24. timeToMinutes s = Some (m0 + 30 * int k)"
  proof -
    assume ne: "s \<noteq> st"
    with all obtain k where k: "k < 24" "\<not> ?B (m0 + 30 * int k)" by blast
    define k0 where "k0 = (LEAST k. k < 24 \<and> \<not> ?B (m0 + 30 * int k))"
    from k have k0: "k0 < 24 \<and> \<not> ?B (m0 + 30 * int k0)"
      unfolding k0_def by (intro LeastI [of "\<lambda>k. k < 24 \<and> \<not> ?B (m0 + 30 * int k)" k]) simp
    have "\<forall>j<k0. ?B (m0 + 30 * int j)"
    proof (intro allI impI)
      fix j assume j: "j < k0"
      then have "\<not> (j < 24 \<and> \<not> ?B (m0 + 30 * int j))"
        unfolding k0_def by (rule not_less_Least)
      with j k0 show "?B (m0 + 30 * int j)" by simp
    qed
    with found [of k0] k0 have "s = minutesToTime (m0 + 30 * int k0)" by blast
    with rt [of k0] k0 show ?thesis by blast
  qed
  have "hasConflicts ?r = (conflicts ?r \<noteq> [])" by simp
  moreover have "\<not> hasConflicts ?r \<longrightarrow> suggested ?r = None" by simp
  moreover have "hasConflicts ?r \<and> (\<forall>k<24. ?B (m0 + 30 * int k)) \<longrightarrow> suggested ?r = Some st"
    using all by simp
  moreover have "\<forall>k<24. hasConflicts ?r \<and> \<not> ?B (m0 + 30 * int k)
              \<and> (\<forall>j<k. ?B (m0 + 30 * int j))
            \<longrightarrow> suggested ?r = Some (minutesToTime (m0 + 30 * int k))
               \<and> timeToMinutes (minutesToTime (m0 + 30 * int k)) = Some (m0 + 30 * int k)"
    using found rt by simp
  moreover have "\<forall>s'. suggested ?r = Some s' \<and> s' \<noteq> st \<longrightarrow>
            (\<exists>k<24. timeToMinutes s' = Some (m0 + 30 * int k))"
    using bound by (auto split: if_splits)
  ultimately show ?thesis using r m0(1) by blast
qed

theorem suggestedTime_probing_witness:
  "validTask (timedTask ''2'' ''09:30'' None Personal)
   \<and> list_all validTask [timedTask ''1'' ''09:00'' (Some ''10:00'') Work]
   \<and> startTime (timedTask ''2'' ''09:30'' None Personal) = Some ''09:30''
   \<and> timeToMinutes ''09:30'' = Some 570
   \<and> probeBlocked ''2025-01-01'' (timedTask ''2'' ''09:30'' None Personal)
        [timedTask ''1'' ''09:00'' (Some ''10:00'') Work] 570
   \<and> \<not> probeBlocked ''2025-01-01'' (timedTask ''2'' ''09:30'' None Personal)
        [timedTask ''1'' ''09:00'' (Some ''10:00'') Work] 600
   \<and> (\<exists>r. checkTimeConflicts ''2025-01-01'' (timedTask ''2'' ''09:30'' None Personal)
             [timedTask ''1'' ''09:00'' (Some ''10:00'') Work] = Some r
         \<and> hasConflicts r \<and> suggested r = Some ''10:00''
         \<and> timeToMinutes ''10:00'' = Some (570 + 30 * int 1))"
proof -
  let ?b = "timedTask ''2'' ''09:30'' None Personal"
  let ?ex = "[timedTask ''1'' ''09:00'' (Some ''10:00'') Work]"
  let ?B = "probeBlocked ''2025-01-01'' ?b ?ex"
  have v1: "validTask ?b" by code_simp
  have l: "list_all validTask ?ex" by code_simp
  then have v2: "\<forall>e\<in>set ?ex. validTask e" by (simp only: list_all_iff)
  have st: "startTime ?b = Some ''09:30''" by code_simp
  have ne: "''09:30'' \<noteq> []" by simp
  have m: "timeToMinutes ''09:30'' = Some 570" by code_simp
  have b0: "?B 570" by code_simp
  have b1: "\<not> ?B 600" by code_simp
  have p: "minutesToTime 600 = ''10:00''" by code_simp
  from suggestedTime_probing [OF v1 v2 st ne, of "''2025-01-01''"] obtain r m0 where
    r: "checkTimeConflicts ''2025-01-01'' ?b ?ex = Some r"
    and m0: "timeToMinutes ''09:30'' = Some m0"
    and hc: "hasConflicts r = (conflicts r \<noteq> [])"
    and found: "\<forall>k<24. hasConflicts r \<and> \<not> ?B (m0 + 30 * int k) \<and> (\<forall>j<k. ?B (m0 + 30 * int j))
            \<longrightarrow> suggested r = Some (minutesToTime (m0 + 30 * int k))
               \<and> timeToMinutes (minutesToTime (m0 + 30 * int k)) = Some (m0 + 30 * int k)"
    by blast
  from m m0 have m0': "m0 = 570" by simp
  have "conflicts (the (checkTimeConflicts ''2025-01-01'' ?b ?ex)) \<noteq> []" by code_simp
  with r hc have h: "hasConflicts r" by simp
  have "(1::nat) < 24" by simp
  moreover have "\<not> ?B (m0 + 30 * int 1)" using b1 m0' by simp
  moreover have "\<forall>j<1. ?B (m0 + 30 * int j)" using b0 m0' by simp
  ultimately have "suggested r = Some (minutesToTime (m0 + 30 * int 1))
     \<and> timeToMinutes (minutesToTime (m0 + 30 * int 1)) = Some (m0 + 30 * int 1)"
    using found h by blast
  with m0' p have sg: "suggested r = Some ''10:00''"
    and rt: "timeToMinutes ''10:00'' = Some (570 + 30 * int 1)"
    by simp_all
  from v1 l st m b0 b1 r h sg rt show ?thesis
    by - (intro conjI exI [of _ r]; assumption)
qed

text \<open>
  Claim C10. For a task without a start time (absent, or the empty string of a blank
  form field) \<^verbatim>\<open>checkTimeConflicts\<close> returns no conflicts and no suggestion, whatever
  the existing tasks are.
\<close>

theorem no_start_no_conflicts:
  assumes "startTime newTask = None \<or> startTime newTask = Some []"
  shows "checkTimeConflicts today newTask existingTasks
           = Some \<lparr>hasConflicts = False, conflicts = [], suggested = None\<rparr>"
  using assms by (auto simp: checkTimeConflicts_falsy truthy_def)

theorem no_start_no_conflicts_witness:
  "startTime (flexTask ''1'' None) = None
   \<and> checkTimeConflicts ''2025-01-01'' (flexTask ''1'' None)
        [timedTask ''2'' ''09:00'' None Work, timedTask ''3'' ''soon'' (Some ''x'') Work]
      = Some \<lparr>hasConflicts = False, conflicts = [], suggested = None\<rparr>"
proof -
  have h: "startTime (flexTask ''1'' None) = None" by (simp add: flexTask_def)
  then have "startTime (flexTask ''1'' None) = None \<or> startTime (flexTask ''1'' None) = Some []" ..
  from h no_start_no_conflicts [OF this] show ?thesis by simp
qed

text \<open>
  Claim C5. A pair with a flexible member is never eligible for comparison. Hence a
  flexible new task has no conflicts, whatever its other fields are, and no flexible
  task is the conflicting task of an entry of any result.
\<close>

theorem flexible_never_compared:
  "(type' task1 = Flexible \<or> type' task2 = Flexible \<longrightarrow> \<not> shouldCompareTasks today task1 task2)
   \<and> (type' newTask = Flexible \<longrightarrow>
        checkTimeConflicts today newTask existingTasks
          = Some \<lparr>hasConflicts = False, conflicts = [], suggested = None\<rparr>)
   \<and> (\<forall>r. checkTimeConflicts today newTask existingTasks = Some r \<longrightarrow>
          (\<forall>c\<in>set (conflicts r). type' (conflictingTask c) \<noteq> Flexible))
   \<and> (validTask newTask \<and> (\<forall>e\<in>set existingTasks. validTask e) \<longrightarrow>
          (\<exists>r. checkTimeConflicts today newTask existingTasks = Some r))"
proof (intro conjI impI allI)
  assume "type' task1 = Flexible \<or> type' task2 = Flexible"
  then show "\<not> shouldCompareTasks today task1 task2"
    by (auto simp: shouldCompareTasks_def)
next
  assume f: "type' newTask = Flexible"
  show "checkTimeConflicts today newTask existingTasks
          = Some \<lparr>hasConflicts = False, conflicts = [], suggested = None\<rparr>"
  proof (cases "truthy (startTime newTask)")
    case False
    then show ?thesis by (rule checkTimeConflicts_falsy)
  next
    case True
    then obtain st where st: "startTime newTask = Some st" "st \<noteq> []"
      by (auto simp: truthy_def split: option.splits)
    from f have "\<forall>e\<in>set existingTasks. \<not> shouldCompareTasks today newTask e"
      by (simp add: shouldCompareTasks_def)
    then have "collectConflicts today newTask st existingTasks = Some []"
      by (rule collectConflicts_ineligible)
    then show ?thesis by (simp add: checkTimeConflicts_start [OF st])
  qed
next
  fix r assume r: "checkTimeConflicts today newTask existingTasks = Some r"
  show "\<forall>c\<in>set (conflicts r). type' (conflictingTask c) \<noteq> Flexible"
  proof
    fix c assume "c \<in> set (conflicts r)"
    with checkTimeConflicts_conflicts [OF r]
    have "shouldCompareTasks today newTask (conflictingTask c)" by blast
    then show "type' (conflictingTask c) \<noteq> Flexible"
      by (auto simp: shouldCompareTasks_def split: if_splits)
  qed
next
  assume "validTask newTask \<and> (\<forall>e\<in>set existingTasks. validTask e)"
  then show "\<exists>r. checkTimeConflicts today newTask existingTasks = Some r"
    using checkTimeConflicts_total by blast
qed

theorem flexible_never_compared_witness:
  "type' (flexTask ''1'' None) = Flexible
   \<and> \<not> shouldCompareTasks ''2025-01-01'' (flexTask ''1'' None) (timedTask ''2'' ''09:00'' None Work)
   \<and> checkTimeConflicts ''2025-01-01'' ((flexTask ''1'' None)\<lparr>startTime := Some ''09:00''\<rparr>)
        [timedTask ''2'' ''09:00'' None Work]
       = Some \<lparr>hasConflicts = False, conflicts = [], suggested = None\<rparr>
   \<and> (\<exists>r. checkTimeConflicts ''2025-01-01'' (timedTask ''3'' ''09:30'' None Work)
              [(flexTask ''1'' None)\<lparr>startTime := Some ''09:00''\<rparr>,
               timedTask ''2'' ''09:00'' None Work] = Some r
          \<and> length (conflicts r) = 1
          \<and> (\<forall>c\<in>set (conflicts r). type' (conflictingTask c) \<noteq> Flexible))"
proof -
  let ?f = "flexTask ''1'' None"
  let ?fs = "?f\<lparr>startTime := Some ''09:00''\<rparr>"
  let ?a = "timedTask ''2'' ''09:00'' None Work"
  let ?b = "timedTask ''3'' ''09:30'' None Work"
  have f: "type' ?f = Flexible" by code_simp
  have fs: "type' ?fs = Flexible" by code_simp
  have v: "validTask ?b \<and> (\<forall>e\<in>set [?fs, ?a]. validTask e)" by code_simp
  note t1 = flexible_never_compared [of ?f ?a "''2025-01-01''" ?fs "[?a]"]
  note t2 = flexible_never_compared [of ?f ?a "''2025-01-01''" ?b "[?fs, ?a]"]
  from t1 f have c1: "\<not> shouldCompareTasks ''2025-01-01'' ?f ?a" by blast
  from t1 fs have c2: "checkTimeConflicts ''2025-01-01'' ?fs [?a]
       = Some \<lparr>hasConflicts = False, conflicts = [], suggested = None\<rparr>" by blast
  from t2 v obtain r where r: "checkTimeConflicts ''2025-01-01'' ?b [?fs, ?a] = Some r" by blast
  with t2 have c3: "\<forall>c\<in>set (conflicts r). type' (conflictingTask c) \<noteq> Flexible" by blast
  have "length (conflicts (the (checkTimeConflicts ''2025-01-01'' ?b [?fs, ?a]))) = 1"
    by code_simp
  with r have c4: "length (conflicts r) = 1" by simp
  from f c1 c2 r c3 c4 show ?thesis
    by - (intro conjI exI [of _ r]; assumption)
qed

text \<open>
  Claim C3. On the conflicts of a result of \<^verbatim>\<open>checkTimeConflicts\<close>, the severity is
  \<open>Error\<close> exactly when some entry is a category conflict, \<open>Warning\<close> exactly when
  there are entries and none is a category conflict, and \<open>SevNone\<close> exactly when there
  is no entry; an entry is a category conflict exactly when the new task and the
  conflicting task have the same category.
\<close>

theorem conflict_severity:
  assumes "validTask newTask" and "\<forall>e\<in>set existingTasks. validTask e"
  shows "\<exists>r. checkTimeConflicts today newTask existingTasks = Some r
    \<and> (getConflictSeverity (conflicts r) = Error
          \<longleftrightarrow> (\<exists>c\<in>set (conflicts r). conflictType c = CategoryConflict))
    \<and> (getConflictSeverity (conflicts r) = Warning
          \<longleftrightarrow> conflicts r \<noteq> [] \<and> \<not> (\<exists>c\<in>set (conflicts r). conflictType c = CategoryConflict))
    \<and> (getConflictSeverity (conflicts r) = SevNone \<longleftrightarrow> conflicts r = [])
    \<and> (\<forall>c\<in>set (conflicts r).
          (conflictType c = CategoryConflict) = (category newTask = category (conflictingTask c)))"
proof -
  from checkTimeConflicts_total [OF assms] obtain r where
    r: "checkTimeConflicts today newTask existingTasks = Some r" by blast
  from checkTimeConflicts_conflicts [OF r] getConflictSeverity_cases [of "conflicts r"] r
  show ?thesis by blast
qed

theorem conflict_severity_witness:
  "validTask (timedTask ''2'' ''09:30'' None Work)
   \<and> list_all validTask [timedTask ''1'' ''09:00'' (Some ''10:00'') Work,
                          timedTask ''3'' ''09:45'' None Family]
   \<and> (\<exists>r. checkTimeConflicts ''2025-01-01'' (timedTask ''2'' ''09:30'' None Work)
             [timedTask ''1'' ''09:00'' (Some ''10:00'') Work,
              timedTask ''3'' ''09:45'' None Family] = Some r
         \<and> map conflictType (conflicts r) = [CategoryConflict, Overlap]
         \<and> getConflictSeverity (conflicts r) = Error
         \<and> (\<exists>c\<in>set (conflicts r). conflictType c = CategoryConflict))"
proof -
  let ?b = "timedTask ''2'' ''09:30'' None Work"
  let ?ex = "[timedTask ''1'' ''09:00'' (Some ''10:00'') Work, timedTask ''3'' ''09:45'' None Family]"
  have v1: "validTask ?b" by code_simp
  have l: "list_all validTask ?ex" by code_simp
  then have v2: "\<forall>e\<in>set ?ex. validTask e" by (simp only: list_all_iff)
  from conflict_severity [OF v1 v2, of "''2025-01-01''"] obtain r where
    r: "checkTimeConflicts ''2025-01-01'' ?b ?ex = Some r"
    and e: "getConflictSeverity (conflicts r) = Error
          \<longleftrightarrow> (\<exists>c\<in>set (conflicts r). conflictType c = CategoryConflict)"
    by blast
  have "map conflictType (conflicts (the (checkTimeConflicts ''2025-01-01'' ?b ?ex)))
      = [CategoryConflict, Overlap]" by code_simp
  with r have m: "map conflictType (conflicts r) = [CategoryConflict, Overlap]" by simp
  have "getConflictSeverity (conflicts (the (checkTimeConflicts ''2025-01-01'' ?b ?ex))) = Error"
    by code_simp
  with r have s: "getConflictSeverity (conflicts r) = Error" by simp
  with e have c: "\<exists>c\<in>set (conflicts r). conflictType c = CategoryConflict" by simp
  from v1 l r m s c show ?thesis
    by - (intro conjI exI [of _ r]; assumption)
qed

text \<open>
  Claim C4. The overlap test is symmetric in its two intervals. On well-formed time
  strings, with a missing end standing for the start plus 60 minutes, it reports a
  conflict exactly when \<open>s1 < e2\<close> and \<open>s2 < e1\<close> in minutes, so an interval that ends
  at the minute at which the other starts does not conflict with it.
\<close>

theorem overlap_test:
  "doTimesOverlap start2 end2 start1 end1 = doTimesOverlap start1 end1 start2 end2
   \<and> (validTime start1 \<and> validOpt end1 \<and> validTime start2 \<and> validOpt end2 \<longrightarrow>
        (\<exists>s1 e1 s2 e2.
           timeToMinutes start1 = Some s1 \<and> timeToMinutes start2 = Some s2
           \<and> (if truthy end1 then \<exists>e. end1 = Some e \<and> timeToMinutes e = Some e1 else e1 = s1 + 60)
           \<and> (if truthy end2 then \<exists>e. end2 = Some e \<and> timeToMinutes e = Some e2 else e2 = s2 + 60)
           \<and> doTimesOverlap start1 end1 start2 end2 = Some (s1 < e2 \<and> s2 < e1)
           \<and> (e1 = s2 \<longrightarrow> doTimesOverlap start1 end1 start2 end2 = Some False)))"
proof (intro conjI impI)
  show "doTimesOverlap start2 end2 start1 end1 = doTimesOverlap start1 end1 start2 end2"
    by (rule doTimesOverlap_sym)
next
  assume v: "validTime start1 \<and> validOpt end1 \<and> validTime start2 \<and> validOpt end2"
  then obtain a b c d where p: "timeToMinutes start1 = Some a" "endMinutes end1 a = Some b"
    "timeToMinutes start2 = Some c" "endMinutes end2 c = Some d"
    "doTimesOverlap start1 end1 start2 end2 = Some (a < d \<and> c < b)"
    using doTimesOverlap_valid [of start1 end1 start2 end2] by blast
  from p(2) have b: "if truthy end1 then \<exists>e. end1 = Some e \<and> timeToMinutes e = Some b else b = a + 60"
    by (auto simp: endMinutes_def truthy_def split: option.splits if_splits)
  from p(4) have d: "if truthy end2 then \<exists>e. end2 = Some e \<and> timeToMinutes e = Some d else d = c + 60"
    by (auto simp: endMinutes_def truthy_def split: option.splits if_splits)
  from p(1,3,5) b d show "\<exists>s1 e1 s2 e2.
           timeToMinutes start1 = Some s1 \<and> timeToMinutes start2 = Some s2
           \<and> (if truthy end1 then \<exists>e. end1 = Some e \<and> timeToMinutes e = Some e1 else e1 = s1 + 60)
           \<and> (if truthy end2 then \<exists>e. end2 = Some e \<and> timeToMinutes e = Some e2 else e2 = s2 + 60)
           \<and> doTimesOverlap start1 end1 start2 end2 = Some (s1 < e2 \<and> s2 < e1)
           \<and> (e1 = s2 \<longrightarrow> doTimesOverlap start1 end1 start2 end2 = Some False)"
    by (intro exI [of _ a] exI [of _ b] exI [of _ c] exI [of _ d]) simp
qed

theorem overlap_test_witness:
  "validTime ''09:00'' \<and> validOpt (Some ''10:00'') \<and> validTime ''10:00'' \<and> validOpt None
   \<and> doTimesOverlap ''10:00'' None ''09:00'' (Some ''10:00'')
       = doTimesOverlap ''09:00'' (Some ''10:00'') ''10:00'' None
   \<and> doTimesOverlap ''09:00'' (Some ''10:00'') ''10:00'' None = Some False
   \<and> doTimesOverlap ''09:00'' (Some ''10:00'') ''09:30'' None = Some True
   \<and> (\<exists>s1 e1 s2 e2.
           timeToMinutes ''09:00'' = Some s1 \<and> timeToMinutes ''10:00'' = Some s2
           \<and> (if truthy (Some ''10:00'')
               then \<exists>e. Some ''10:00'' = Some e \<and> timeToMinutes e = Some e1 else e1 = s1 + 60)
           \<and> (if truthy None
               then \<exists>e. None = Some e \<and> timeToMinutes e = Some e2 else e2 = s2 + 60)
           \<and> doTimesOverlap ''09:00'' (Some ''10:00'') ''10:00'' None = Some (s1 < e2 \<and> s2 < e1)
           \<and> (e1 = s2 \<longrightarrow> doTimesOverlap ''09:00'' (Some ''10:00'') ''10:00'' None = Some False))"
proof -
  have v: "validTime ''09:00'' \<and> validOpt (Some ''10:00'') \<and> validTime ''10:00'' \<and> validOpt None"
    by code_simp
  have t: "doTimesOverlap ''09:00'' (Some ''10:00'') ''10:00'' None = Some False"
    by code_simp
  have o: "doTimesOverlap ''09:00'' (Some ''10:00'') ''09:30'' None = Some True"
    by code_simp
  note inst = overlap_test [of "''10:00''" None "''09:00''" "Some ''10:00''"]
  from inst have s: "doTimesOverlap ''10:00'' None ''09:00'' (Some ''10:00'')
       = doTimesOverlap ''09:00'' (Some ''10:00'') ''10:00'' None" by (rule conjunct1)
  from inst v have e: "\<exists>s1 e1 s2 e2.
           timeToMinutes ''09:00'' = Some s1 \<and> timeToMinutes ''10:00'' = Some s2
           \<and> (if truthy (Some ''10:00'')
               then \<exists>e. Some ''10:00'' = Some e \<and> timeToMinutes e = Some e1 else e1 = s1 + 60)
           \<and> (if truthy None
               then \<exists>e. None = Some e \<and> timeToMinutes e = Some e2 else e2 = s2 + 60)
           \<and> doTimesOverlap ''09:00'' (Some ''10:00'') ''10:00'' None = Some (s1 < e2 \<and> s2 < e1)
           \<and> (e1 = s2 \<longrightarrow> doTimesOverlap ''09:00'' (Some ''10:00'') ''10:00'' None = Some False)"
    by (rule conjunct2 [THEN mp])
  from v have v1: "validTime ''09:00''" and v2: "validOpt (Some ''10:00'')"
    and v3: "validTime ''10:00''" and v4: "validOpt None" by simp_all
  from v1 v2 v3 v4 s t o e show ?thesis
    by - (intro conjI; assumption)
qed

section \<open>Properties of the schedule optimizer\<close>

subsection \<open>Occupied intervals and free slots\<close>

lemmas block_defs =
  SLEEP_START_1_def SLEEP_END_1_def SLEEP_START_2_def SLEEP_END_2_def
  MORNING_START_def MORNING_END_def WORK_START_def WORK_END_def

lemma those_map_Some:
  "\<forall>x\<in>set xs. f x \<noteq> None \<Longrightarrow> those (map f xs) = Some (map (\<lambda>x. the (f x)) xs)"
  by (induction xs) auto

lemma toInterval_valid:
  assumes "validTask t" "truthy (startTime t)"
  shows "\<exists>i. toInterval t = Some i \<and> taskInterval t = Some i"
proof -
  from assms(2) obtain st where st: "startTime t = Some st" "st \<noteq> []"
    by (auto simp: truthy_def split: option.splits)
  from taskInterval_valid [OF assms(1) st] assms(2) show ?thesis
    by (auto simp: taskInterval_def)
qed

lemma scheduledTasks_valid:
  assumes "\<forall>t\<in>set tasks. validTask t"
  shows "\<exists>sched. scheduledTasks tasks = Some sched \<and> sorted (map fst sched)
     \<and> set sched = {i. \<exists>t\<in>set tasks. \<not> completed t \<and> taskInterval t = Some i}"
proof -
  let ?act = "filter (\<lambda>task. truthy (startTime task) \<and> \<not> completed task) tasks"
  have ne: "\<forall>t\<in>set ?act. toInterval t \<noteq> None"
    using assms toInterval_valid by fastforce
  let ?ivs = "map (\<lambda>t. the (toInterval t)) ?act"
  have s: "scheduledTasks tasks = Some (sort_key fst ?ivs)"
    by (simp add: scheduledTasks_def those_map_Some [OF ne])
  have "set ?ivs = {i. \<exists>t\<in>set tasks. \<not> completed t \<and> taskInterval t = Some i}"
  proof (intro set_eqI iffI)
    fix i assume "i \<in> set ?ivs"
    then obtain t where t: "t \<in> set tasks" "truthy (startTime t)" "\<not> completed t"
      "i = the (toInterval t)" by auto
    from toInterval_valid [of t] assms t have "taskInterval t = Some i" by auto
    with t show "i \<in> {i. \<exists>t\<in>set tasks. \<not> completed t \<and> taskInterval t = Some i}" by blast
  next
    fix i assume "i \<in> {i. \<exists>t\<in>set tasks. \<not> completed t \<and> taskInterval t = Some i}"
    then obtain t where t: "t \<in> set tasks" "\<not> completed t" "taskInterval t = Some i" by blast
    then have "truthy (startTime t)" "toInterval t = Some i"
      by (auto simp: taskInterval_def split: if_splits)
    with t have "t \<in> set ?act" "the (toInterval t) = i" by simp_all
    then show "i \<in> set ?ivs" by force
  qed
  with s show ?thesis by simp
qed

lemma addVirtualTasks_sorted: "sorted (map fst (addVirtualTasks sched))"
  by (simp add: addVirtualTasks_def Let_def)

lemma addVirtualTasks_set:
  "set sched \<subseteq> set (addVirtualTasks sched)"
  "set (addVirtualTasks sched) \<subseteq> set sched \<union>
     {(SLEEP_START_1, SLEEP_END_1), (SLEEP_START_2, SLEEP_END_2), (MORNING_START, MORNING_END)}"
  by (auto simp: addVirtualTasks_def Let_def)

lemma findGaps_bounds:
  "g \<in> set (findGaps lastEnd occ) \<Longrightarrow> lastEnd \<le> fst g \<and> fst g + 60 \<le> snd g"
proof (induction occ arbitrary: lastEnd)
  case Nil
  then show ?case by (auto split: if_splits)
next
  case (Cons t ts)
  from Cons.prems consider "g = (lastEnd, fst t)" "fst t - lastEnd \<ge> 60"
    | "g \<in> set (findGaps (max lastEnd (snd t)) ts)"
    by (auto split: if_splits)
  then show ?case
  proof cases
    case 1
    then show ?thesis by simp
  next
    case 2
    from Cons.IH [OF this] show ?thesis by simp
  qed
qed

lemma findGaps_free:
  "sorted (map fst occ) \<Longrightarrow> g \<in> set (findGaps lastEnd occ) \<Longrightarrow> o' \<in> set occ
     \<Longrightarrow> snd g \<le> fst o' \<or> snd o' \<le> fst g"
proof (induction occ arbitrary: lastEnd)
  case Nil
  then show ?case by simp
next
  case (Cons t ts)
  from Cons.prems(1) have srt: "sorted (map fst ts)" "\<forall>x\<in>set ts. fst t \<le> fst x" by auto
  from Cons.prems(2) consider "g = (lastEnd, fst t)"
    | "g \<in> set (findGaps (max lastEnd (snd t)) ts)"
    by (auto split: if_splits)
  then show ?case
  proof cases
    case 1
    with srt(2) Cons.prems(3) show ?thesis by auto
  next
    case 2
    show ?thesis
    proof (cases "o' = t")
      case True
      from findGaps_bounds [OF 2] True show ?thesis by simp
    next
      case False
      with Cons.prems(3) have "o' \<in> set ts" by simp
      from Cons.IH [OF srt(1) 2 this] show ?thesis .
    qed
  qed
qed

lemma findGaps_chain:
  "\<forall>o'\<in>set occ. fst o' \<le> snd o' \<Longrightarrow> sorted_wrt (\<lambda>x y. snd x \<le> fst y) (findGaps lastEnd occ)"
proof (induction occ arbitrary: lastEnd)
  case Nil
  then show ?case by simp
next
  case (Cons t ts)
  then have IH: "sorted_wrt (\<lambda>x y. snd x \<le> fst y) (findGaps (max lastEnd (snd t)) ts)" by simp
  have "\<forall>g\<in>set (findGaps (max lastEnd (snd t)) ts). fst t \<le> fst g"
  proof
    fix g assume "g \<in> set (findGaps (max lastEnd (snd t)) ts)"
    from findGaps_bounds [OF this] Cons.prems show "fst t \<le> fst g" by simp
  qed
  with IH show ?case by (simp add: sorted_wrt_append)
qed

subsection \<open>The assignment loop\<close>

lemma skipSlots_ge: "slotIdx \<le> skipSlots slots slotIdx"
proof (induction slots slotIdx rule: skipSlots.induct)
  case (1 slots slotIdx)
  show ?case
  proof (cases "slotIdx < length slots \<and> snd (slots ! slotIdx) - fst (slots ! slotIdx) < 60")
    case True
    with 1 have "slotIdx + 1 \<le> skipSlots slots (slotIdx + 1)" by simp
    with True show ?thesis by (subst skipSlots.simps) simp
  next
    case False
    then show ?thesis by (subst skipSlots.simps) auto
  qed
qed

lemma skipSlots_long:
  "skipSlots slots slotIdx < length slots \<Longrightarrow>
     60 \<le> snd (slots ! skipSlots slots slotIdx) - fst (slots ! skipSlots slots slotIdx)"
proof (induction slots slotIdx rule: skipSlots.induct)
  case (1 slots slotIdx)
  show ?case
  proof (cases "slotIdx < length slots \<and> snd (slots ! slotIdx) - fst (slots ! slotIdx) < 60")
    case True
    then have eq: "skipSlots slots slotIdx = skipSlots slots (slotIdx + 1)"
      by (subst skipSlots.simps) simp
    with 1 True show ?thesis by simp
  next
    case False
    then have eq: "skipSlots slots slotIdx = slotIdx"
      by (subst skipSlots.simps) auto
    with 1(2) False show ?thesis by auto
  qed
qed

lemma assignSlots_ids:
  "map fst (assignSlots ftasks slots slotIdx)
     = map id' (take (length (assignSlots ftasks slots slotIdx)) ftasks)"
  by (induction ftasks arbitrary: slots slotIdx) (simp_all add: Let_def)

lemma assignSlots_minutes:
  "\<exists>ms. map snd (assignSlots ftasks slots slotIdx) = map minutesToTime ms
     \<and> (\<forall>m\<in>set ms. \<exists>j. slotIdx \<le> j \<and> j < length slots
            \<and> fst (slots ! j) \<le> m \<and> m + 60 \<le> snd (slots ! j))
     \<and> (sorted_wrt (\<lambda>x y. snd x \<le> fst y) slots \<longrightarrow> sorted_wrt (\<lambda>a b. a + 60 \<le> b) ms)"
proof (induction ftasks arbitrary: slots slotIdx)
  case Nil
  show ?case by (intro exI [of _ "[]"]) simp
next
  case (Cons task rest)
  let ?i = "skipSlots slots slotIdx"
  show ?case
  proof (cases "?i \<ge> length slots")
    case True
    then show ?thesis by (intro exI [of _ "[]"]) simp
  next
    case False
    then have i: "?i < length slots" by simp
    obtain s e where se: "slots ! ?i = (s, e)" by (cases "slots ! ?i")
    from skipSlots_long [OF i] se have long: "s + 60 \<le> e" by simp
    let ?slots' = "slots[?i := (s + 60, e)]"
    from Cons.IH [of ?slots' ?i] obtain ms where
      ms: "map snd (assignSlots rest ?slots' ?i) = map minutesToTime ms"
      and within: "\<forall>m\<in>set ms. \<exists>j. ?i \<le> j \<and> j < length ?slots'
            \<and> fst (?slots' ! j) \<le> m \<and> m + 60 \<le> snd (?slots' ! j)"
      and srt: "sorted_wrt (\<lambda>x y. snd x \<le> fst y) ?slots' \<longrightarrow> sorted_wrt (\<lambda>a b. a + 60 \<le> b) ms"
      by blast
    have eq: "assignSlots (task # rest) slots slotIdx
        = (id' task, minutesToTime s) # assignSlots rest ?slots' ?i"
      using False se by (simp add: Let_def)
    have w: "\<forall>m\<in>set (s # ms). \<exists>j. slotIdx \<le> j \<and> j < length slots
            \<and> fst (slots ! j) \<le> m \<and> m + 60 \<le> snd (slots ! j)"
    proof
      fix m assume "m \<in> set (s # ms)"
      then consider "m = s" | "m \<in> set ms" by auto
      then show "\<exists>j. slotIdx \<le> j \<and> j < length slots
            \<and> fst (slots ! j) \<le> m \<and> m + 60 \<le> snd (slots ! j)"
      proof cases
        case 1
        with i se long skipSlots_ge [of slotIdx slots] show ?thesis
          by (intro exI [of _ ?i]) simp
      next
        case 2
        with within obtain j where j: "?i \<le> j" "j < length slots"
          "fst (?slots' ! j) \<le> m" "m + 60 \<le> snd (?slots' ! j)" by auto
        show ?thesis
        proof (cases "j = ?i")
          case True
          with j i se skipSlots_ge [of slotIdx slots] show ?thesis
            by (intro exI [of _ ?i]) simp
        next
          case False
          with j skipSlots_ge [of slotIdx slots] show ?thesis
            by (intro exI [of _ j]) simp
        qed
      qed
    qed
    have c: "sorted_wrt (\<lambda>x y. snd x \<le> fst y) slots \<longrightarrow> sorted_wrt (\<lambda>a b. a + 60 \<le> b) (s # ms)"
    proof
      assume ch: "sorted_wrt (\<lambda>x y. snd x \<le> fst y) slots"
      then have nth: "\<And>a b. a < b \<Longrightarrow> b < length slots \<Longrightarrow> snd (slots ! a) \<le> fst (slots ! b)"
        by (simp add: sorted_wrt_iff_nth_less)
      have "sorted_wrt (\<lambda>x y. snd x \<le> fst y) ?slots'"
        unfolding sorted_wrt_iff_nth_less
      proof (intro allI impI)
        fix a b assume ab: "a < b" "b < length ?slots'"
        then have "snd (slots ! a) \<le> fst (slots ! b)" using nth by simp
        with ab se i long show "snd (?slots' ! a) \<le> fst (?slots' ! b)"
          by (cases "a = ?i"; cases "b = ?i") (auto simp: nth_list_update)
      qed
      with srt have s1: "sorted_wrt (\<lambda>a b. a + 60 \<le> b) ms" by simp
      have "\<forall>m\<in>set ms. s + 60 \<le> m"
      proof
        fix m assume "m \<in> set ms"
        with within obtain j where j: "?i \<le> j" "j < length slots"
          "fst (?slots' ! j) \<le> m" by auto
        show "s + 60 \<le> m"
        proof (cases "j = ?i")
          case True
          with j i show ?thesis by simp
        next
          case False
          with j have "?i < j" by simp
          from nth [OF this j(2)] se have "e \<le> fst (slots ! j)" by simp
          with False j long show ?thesis by simp
        qed
      qed
      with s1 show "sorted_wrt (\<lambda>a b. a + 60 \<le> b) (s # ms)" by simp
    qed
    from ms eq w c show ?thesis
      by (intro exI [of _ "s # ms"]) simp
  qed
qed

subsection \<open>Suggested hours are free and apart\<close>

lemma occupied_valid:
  assumes "\<forall>t\<in>set tasks. validTask t"
  shows "\<exists>occ. occupied tasks = Some occ \<and> sorted (map fst occ)
     \<and> (\<forall>t\<in>set tasks. \<not> completed t \<longrightarrow> (\<forall>i. taskInterval t = Some i \<longrightarrow> i \<in> set occ))
     \<and> (\<forall>o'\<in>set occ. (\<exists>t\<in>set tasks. \<not> completed t \<and> taskInterval t = Some o')
            \<or> o' \<in> {(SLEEP_START_1, SLEEP_END_1), (SLEEP_START_2, SLEEP_END_2),
                      (MORNING_START, MORNING_END)})"
proof -
  from scheduledTasks_valid [OF assms] obtain sched where
    s: "scheduledTasks tasks = Some sched"
    and set: "set sched = {i. \<exists>t\<in>set tasks. \<not> completed t \<and> taskInterval t = Some i}"
    by blast
  have "occupied tasks = Some (addVirtualTasks sched)" by (simp add: occupied_def s)
  moreover have "sorted (map fst (addVirtualTasks sched))" by (rule addVirtualTasks_sorted)
  moreover have "\<forall>t\<in>set tasks. \<not> completed t \<longrightarrow>
      (\<forall>i. taskInterval t = Some i \<longrightarrow> i \<in> set (addVirtualTasks sched))"
    using addVirtualTasks_set(1) [of sched] set by blast
  moreover have "\<forall>o'\<in>set (addVirtualTasks sched).
      (\<exists>t\<in>set tasks. \<not> completed t \<and> taskInterval t = Some o')
            \<or> o' \<in> {(SLEEP_START_1, SLEEP_END_1), (SLEEP_START_2, SLEEP_END_2),
                      (MORNING_START, MORNING_END)}"
    using addVirtualTasks_set(2) [of sched] set by blast
  ultimately show ?thesis by blast
qed

lemma minutesToTime_inj:
  assumes "0 \<le> a" "0 \<le> b" "minutesToTime a = minutesToTime b"
  shows "a = b"
proof -
  from assms(3) have "timeToMinutes (minutesToTime a) = timeToMinutes (minutesToTime b)" by simp
  with assms(1,2) show ?thesis by (simp add: timeToMinutes_minutesToTime)
qed

text \<open>
  Claim C9, as amended. In one pass over tasks with well-formed time strings, the hour
  that begins at an assigned suggested time overlaps no occupied interval of the pass:
  not the interval of a non-completed task that carries a start time (its end
  defaulting to the start plus 60 minutes), and not an injected sleep or morning
  block. If moreover no such task ends before it starts, the suggested times are
  assigned in increasing order at least 60 minutes apart, so the hours of distinct
  flexible tasks are pairwise disjoint and their suggested times are distinct.
\<close>

theorem suggestions_disjoint:
  assumes "\<forall>t\<in>set tasks. validTask t"
  shows "\<exists>occ sugg. occupied tasks = Some occ \<and> suggestions tasks = Some sugg
     \<and> (\<forall>t\<in>set tasks. \<not> completed t \<longrightarrow> (\<forall>i. taskInterval t = Some i \<longrightarrow> i \<in> set occ))
     \<and> (\<forall>o'\<in>set occ. (\<exists>t\<in>set tasks. \<not> completed t \<and> taskInterval t = Some o')
            \<or> o' \<in> {(SLEEP_START_1, SLEEP_END_1), (SLEEP_START_2, SLEEP_END_2),
                      (MORNING_START, MORNING_END)})
     \<and> map fst sugg = map id' (take (length sugg) (flexibleTasks tasks))
     \<and> (flexibleTasks tasks \<noteq> [] \<longrightarrow>
          optimizeSchedule tasks
            = Some (ScheduleOptimized (length sugg), map (applySuggestion sugg) tasks))
     \<and> (\<forall>k<length sugg. \<exists>m. timeToMinutes (snd (sugg ! k)) = Some m
           \<and> (\<forall>o'\<in>set occ. \<not> overlaps (m, m + 60) o'))
     \<and> ((\<forall>t\<in>set tasks. \<not> completed t \<longrightarrow> endsAfterStart t) \<longrightarrow>
          distinct (map snd sugg)
          \<and> (\<forall>k l. k < l \<and> l < length sugg \<longrightarrow>
               (\<exists>m n. timeToMinutes (snd (sugg ! k)) = Some m
                  \<and> timeToMinutes (snd (sugg ! l)) = Some n \<and> m + 60 \<le> n)))"
proof -
  from occupied_valid [OF assms] obtain occ where
    occ: "occupied tasks = Some occ" and srt: "sorted (map fst occ)"
    and inc: "\<forall>t\<in>set tasks. \<not> completed t \<longrightarrow> (\<forall>i. taskInterval t = Some i \<longrightarrow> i \<in> set occ)"
    and src: "\<forall>o'\<in>set occ. (\<exists>t\<in>set tasks. \<not> completed t \<and> taskInterval t = Some o')
            \<or> o' \<in> {(SLEEP_START_1, SLEEP_END_1), (SLEEP_START_2, SLEEP_END_2),
                      (MORNING_START, MORNING_END)}"
    by blast
  define slots where "slots = findGaps WORK_START occ"
  define sugg where "sugg = assignSlots (flexibleTasks tasks) slots 0"
  have sg: "suggestions tasks = Some sugg"
    by (simp add: suggestions_def availableSlots_def occ slots_def sugg_def)
  from assignSlots_minutes [of "flexibleTasks tasks" slots 0] obtain ms where
    ms: "map snd sugg = map minutesToTime ms"
    and within: "\<forall>m\<in>set ms. \<exists>j. j < length slots \<and> fst (slots ! j) \<le> m \<and> m + 60 \<le> snd (slots ! j)"
    and ord: "sorted_wrt (\<lambda>x y. snd x \<le> fst y) slots \<longrightarrow> sorted_wrt (\<lambda>a b. a + 60 \<le> b) ms"
    unfolding sugg_def by blast
  from ms have len: "length ms = length sugg" by (metis length_map)
  have nth: "\<And>k. k < length sugg \<Longrightarrow> snd (sugg ! k) = minutesToTime (ms ! k)"
  proof -
    fix k assume k: "k < length sugg"
    then have "snd (sugg ! k) = map snd sugg ! k" by simp
    also have "\<dots> = minutesToTime (ms ! k)" using k len by (simp add: ms)
    finally show "snd (sugg ! k) = minutesToTime (ms ! k)" .
  qed
  have slot: "\<And>m. m \<in> set ms \<Longrightarrow> \<exists>g\<in>set slots. WORK_START \<le> fst g \<and> fst g \<le> m \<and> m + 60 \<le> snd g"
  proof -
    fix m assume "m \<in> set ms"
    with within obtain j where j: "j < length slots" "fst (slots ! j) \<le> m" "m + 60 \<le> snd (slots ! j)"
      by blast
    then have "slots ! j \<in> set (findGaps WORK_START occ)" by (simp add: slots_def)
    from findGaps_bounds [OF this] j show "\<exists>g\<in>set slots. WORK_START \<le> fst g \<and> fst g \<le> m \<and> m + 60 \<le> snd g"
      by (intro bexI [of _ "slots ! j"]) simp_all
  qed
  have pos: "\<And>m. m \<in> set ms \<Longrightarrow> 0 \<le> m"
    using slot by (fastforce simp: WORK_START_def)
  have parse: "\<And>k. k < length sugg \<Longrightarrow> timeToMinutes (snd (sugg ! k)) = Some (ms ! k)"
    using nth pos len by (simp add: timeToMinutes_minutesToTime)
  have free: "\<forall>k<length sugg. \<exists>m. timeToMinutes (snd (sugg ! k)) = Some m
           \<and> (\<forall>o'\<in>set occ. \<not> overlaps (m, m + 60) o')"
  proof (intro allI impI)
    fix k assume k: "k < length sugg"
    then have "ms ! k \<in> set ms" using len by simp
    from slot [OF this] obtain g where g: "g \<in> set slots" "fst g \<le> ms ! k" "ms ! k + 60 \<le> snd g"
      by blast
    have "\<forall>o'\<in>set occ. \<not> overlaps (ms ! k, ms ! k + 60) o'"
    proof
      fix o' assume "o' \<in> set occ"
      from findGaps_free [OF srt _ this, of g WORK_START] g(1)
      have "snd g \<le> fst o' \<or> snd o' \<le> fst g" by (simp add: slots_def)
      with g show "\<not> overlaps (ms ! k, ms ! k + 60) o'" by (auto simp: overlaps_def)
    qed
    with parse [OF k] show "\<exists>m. timeToMinutes (snd (sugg ! k)) = Some m
           \<and> (\<forall>o'\<in>set occ. \<not> overlaps (m, m + 60) o')" by blast
  qed
  have pair: "(\<forall>t\<in>set tasks. \<not> completed t \<longrightarrow> endsAfterStart t) \<longrightarrow>
          distinct (map snd sugg)
          \<and> (\<forall>k l. k < l \<and> l < length sugg \<longrightarrow>
               (\<exists>m n. timeToMinutes (snd (sugg ! k)) = Some m
                  \<and> timeToMinutes (snd (sugg ! l)) = Some n \<and> m + 60 \<le> n))"
  proof
    assume eas: "\<forall>t\<in>set tasks. \<not> completed t \<longrightarrow> endsAfterStart t"
    have "\<forall>o'\<in>set occ. fst o' \<le> snd o'"
    proof
      fix o' assume "o' \<in> set occ"
      with src consider t where "t \<in> set tasks" "\<not> completed t" "taskInterval t = Some o'"
        | "o' \<in> {(SLEEP_START_1, SLEEP_END_1), (SLEEP_START_2, SLEEP_END_2),
                      (MORNING_START, MORNING_END)}" by blast
      then show "fst o' \<le> snd o'"
      proof cases
        case 1
        with eas show ?thesis by (auto simp: endsAfterStart_def)
      next
        case 2
        then show ?thesis by (auto simp: block_defs)
      qed
    qed
    then have "sorted_wrt (\<lambda>x y. snd x \<le> fst y) slots"
      unfolding slots_def by (rule findGaps_chain)
    with ord have sm: "sorted_wrt (\<lambda>a b. a + 60 \<le> b) ms" by simp
    then have lt: "\<And>k l. k < l \<Longrightarrow> l < length ms \<Longrightarrow> ms ! k + 60 \<le> ms ! l"
      by (simp add: sorted_wrt_iff_nth_less)
    have "distinct ms"
      unfolding distinct_conv_nth
    proof (intro allI impI)
      fix i j assume "i < length ms" "j < length ms" "i \<noteq> j"
      then show "ms ! i \<noteq> ms ! j"
        using lt [of i j] lt [of j i] by (cases "i < j") auto
    qed
    moreover have "inj_on minutesToTime (set ms)"
      using pos minutesToTime_inj by (auto simp: inj_on_def)
    ultimately have "distinct (map minutesToTime ms)" by (simp add: distinct_map)
    then have d: "distinct (map snd sugg)" by (simp add: ms)
    have "\<forall>k l. k < l \<and> l < length sugg \<longrightarrow>
               (\<exists>m n. timeToMinutes (snd (sugg ! k)) = Some m
                  \<and> timeToMinutes (snd (sugg ! l)) = Some n \<and> m + 60 \<le> n)"
    proof (intro allI impI)
      fix k l assume kl: "k < l \<and> l < length sugg"
      then have "ms ! k + 60 \<le> ms ! l" using lt len by simp
      with kl parse [of k] parse [of l]
      show "\<exists>m n. timeToMinutes (snd (sugg ! k)) = Some m
                  \<and> timeToMinutes (snd (sugg ! l)) = Some n \<and> m + 60 \<le> n" by simp
    qed
    with d show "distinct (map snd sugg)
          \<and> (\<forall>k l. k < l \<and> l < length sugg \<longrightarrow>
               (\<exists>m n. timeToMinutes (snd (sugg ! k)) = Some m
                  \<and> timeToMinutes (snd (sugg ! l)) = Some n \<and> m + 60 \<le> n))" by simp
  qed
  have ids: "map fst sugg = map id' (take (length sugg) (flexibleTasks tasks))"
    unfolding sugg_def by (rule assignSlots_ids)
  have opt: "flexibleTasks tasks \<noteq> [] \<longrightarrow>
          optimizeSchedule tasks
            = Some (ScheduleOptimized (length sugg), map (applySuggestion sugg) tasks)"
    by (simp add: optimizeSchedule_def sg)
  from occ sg inc src ids opt free pair show ?thesis by blast
qed

text \<open>
  The condition on the ends is needed: with a task from 08:00 to 07:00 the gap before
  it is recorded twice, and two flexible tasks are both sent to 07:00.
\<close>

theorem suggestions_disjoint_counterexample:
  "list_all validTask invertedTasks
   \<and> taskInterval (invertedTasks ! 0) = Some (480, 420)
   \<and> suggestions invertedTasks = Some [(''3'', ''07:00''), (''4'', ''07:00'')]
   \<and> map_option (map suggestedTime \<circ> snd) (optimizeSchedule invertedTasks)
       = Some [None, None, Some ''07:00'', Some ''07:00'']
   \<and> overlaps (420, 420 + 60) (420, 420 + 60)"
  by code_simp

theorem suggestions_disjoint_witness:
  "list_all validTask twoFlexTasks \<and> list_all endsAfterStart twoFlexTasks
   \<and> suggestions twoFlexTasks = Some [(''3'', ''07:00''), (''4'', ''09:00'')]
   \<and> distinct (map snd [(''3'', ''07:00''), (''4'', ''09:00'')])
   \<and> (\<exists>occ m n. occupied twoFlexTasks = Some occ
         \<and> timeToMinutes ''07:00'' = Some m \<and> timeToMinutes ''09:00'' = Some n
         \<and> m + 60 \<le> n
         \<and> list_all (\<lambda>o'. \<not> overlaps (m, m + 60) o' \<and> \<not> overlaps (n, n + 60) o') occ)"
proof -
  let ?sg = "[(''3'', ''07:00''), (''4'', ''09:00'')]"
  have l: "list_all validTask twoFlexTasks" by code_simp
  then have v: "\<forall>t\<in>set twoFlexTasks. validTask t" by (simp only: list_all_iff)
  have l2: "list_all endsAfterStart twoFlexTasks" by code_simp
  then have e: "\<forall>t\<in>set twoFlexTasks. \<not> completed t \<longrightarrow> endsAfterStart t"
    by (simp only: list_all_iff) blast
  have s: "suggestions twoFlexTasks = Some ?sg" by code_simp
  from suggestions_disjoint [OF v] obtain occ sugg where
    occ: "occupied twoFlexTasks = Some occ" and sg: "suggestions twoFlexTasks = Some sugg"
    and free: "\<forall>k<length sugg. \<exists>m. timeToMinutes (snd (sugg ! k)) = Some m
           \<and> (\<forall>o'\<in>set occ. \<not> overlaps (m, m + 60) o')"
    and pair: "(\<forall>t\<in>set twoFlexTasks. \<not> completed t \<longrightarrow> endsAfterStart t) \<longrightarrow>
          distinct (map snd sugg)
          \<and> (\<forall>k l. k < l \<and> l < length sugg \<longrightarrow>
               (\<exists>m n. timeToMinutes (snd (sugg ! k)) = Some m
                  \<and> timeToMinutes (snd (sugg ! l)) = Some n \<and> m + 60 \<le> n))"
    by blast
  from s sg have sugg: "sugg = ?sg" by simp
  from pair e have d: "distinct (map snd sugg)"
    and ord: "\<forall>k l. k < l \<and> l < length sugg \<longrightarrow>
               (\<exists>m n. timeToMinutes (snd (sugg ! k)) = Some m
                  \<and> timeToMinutes (snd (sugg ! l)) = Some n \<and> m + 60 \<le> n)"
    by simp_all
  from d sugg have d': "distinct (map snd ?sg)" by simp
  from ord [rule_format, of 0 1] sugg obtain m n where
    mn: "timeToMinutes ''07:00'' = Some m" "timeToMinutes ''09:00'' = Some n" "m + 60 \<le> n"
    by auto
  from free [rule_format, of 0] sugg mn have f0: "\<forall>o'\<in>set occ. \<not> overlaps (m, m + 60) o'"
    by auto
  from free [rule_format, of 1] sugg mn have f1: "\<forall>o'\<in>set occ. \<not> overlaps (n, n + 60) o'"
    by auto
  from f0 f1 have fl: "list_all (\<lambda>o'. \<not> overlaps (m, m + 60) o' \<and> \<not> overlaps (n, n + 60) o') occ"
    by (simp add: list_all_iff)
  from occ mn fl have ex: "\<exists>occ m n. occupied twoFlexTasks = Some occ
         \<and> timeToMinutes ''07:00'' = Some m \<and> timeToMinutes ''09:00'' = Some n
         \<and> m + 60 \<le> n
         \<and> list_all (\<lambda>o'. \<not> overlaps (m, m + 60) o' \<and> \<not> overlaps (n, n + 60) o') occ"
    by blast
  from l l2 s d' ex show ?thesis by - (intro conjI; assumption)
qed

subsection \<open>Suggestions do not feed back\<close>

lemma applySuggestion_fields [simp]:
  "type' (applySuggestion sg t) = type' t"
  "completed (applySuggestion sg t) = completed t"
  "startTime (applySuggestion sg t) = startTime t"
  "endTime (applySuggestion sg t) = endTime t"
  "id' (applySuggestion sg t) = id' t"
  by (simp_all add: applySuggestion_def split: option.splits)







lemma suggestions_valid:
  assumes "\<forall>t\<in>set tasks. validTask t"
  shows "\<exists>sugg. suggestions tasks = Some sugg"
  using scheduledTasks_valid [OF assms]
  by (auto simp: suggestions_def availableSlots_def occupied_def)


text \<open>
  The random form repeats its result when its draws repeat: it reads a task only for
  the fields that a pass leaves alone.
\<close>

lemma applyRandomSuggestion_fields [simp]:
  "type' (applyRandomSuggestion sg t) = type' t"
  "completed (applyRandomSuggestion sg t) = completed t"
  "id' (applyRandomSuggestion sg t) = id' t"
  by (simp_all add: applyRandomSuggestion_def split: option.splits)









subsection \<open>Tasks without a suggestion\<close>

lemma distinct_nth_notin_take:
  assumes "distinct xs" "n \<le> j" "j < length xs"
  shows "xs ! j \<notin> set (take n xs)"
proof
  assume "xs ! j \<in> set (take n xs)"
  then obtain i where i: "i < length (take n xs)" "take n xs ! i = xs ! j"
    by (auto simp: in_set_conv_nth)
  then have "i < n" "i < length xs" "xs ! i = xs ! j" by simp_all
  with assms show False by (simp add: nth_eq_iff_index_eq)
qed

text \<open>
  Claim C6. After a pass, a non-completed flexible task for which the pass has made no
  suggestion has no suggested time, whatever it carried before, and a completed or
  non-flexible task is returned unchanged. The tasks with a suggestion are the first
  ones among the non-completed flexible tasks; with distinct identifiers every later
  one is without a suggestion.
\<close>

theorem stale_suggestions_cleared:
  assumes "\<forall>t\<in>set tasks. validTask t"
  shows "\<exists>toast r sugg. optimizeSchedule tasks = Some (toast, r) \<and> suggestions tasks = Some sugg
     \<and> length r = length tasks
     \<and> map fst sugg = map id' (take (length sugg) (flexibleTasks tasks))
     \<and> (distinct (map id' (flexibleTasks tasks)) \<longrightarrow>
          (\<forall>j. length sugg \<le> j \<and> j < length (flexibleTasks tasks) \<longrightarrow>
             id' (flexibleTasks tasks ! j) \<notin> fst ` set sugg))
     \<and> (\<forall>k<length tasks.
           (completed (tasks ! k) \<or> type' (tasks ! k) \<noteq> Flexible \<longrightarrow> r ! k = tasks ! k)
         \<and> (\<not> completed (tasks ! k) \<and> type' (tasks ! k) = Flexible
              \<and> id' (tasks ! k) \<notin> fst ` set sugg
              \<longrightarrow> r ! k = (tasks ! k)\<lparr>suggestedTime := None\<rparr>))"
proof -
  from suggestions_valid [OF assms] obtain sugg where s: "suggestions tasks = Some sugg" by blast
  define r where "r = (if flexibleTasks tasks = [] then tasks else map (applySuggestion sugg) tasks)"
  define toast where "toast = (if flexibleTasks tasks = [] then NoFlexibleTasks
     else ScheduleOptimized (length sugg))"
  have o: "optimizeSchedule tasks = Some (toast, r)"
    by (simp add: optimizeSchedule_def s r_def toast_def)
  have len: "length r = length tasks" by (simp add: r_def)
  from s have sg: "sugg = assignSlots (flexibleTasks tasks) (findGaps WORK_START (the (occupied tasks))) 0"
    by (auto simp: suggestions_def availableSlots_def)
  have ids: "map fst sugg = map id' (take (length sugg) (flexibleTasks tasks))"
    by (subst (1 2) sg) (rule assignSlots_ids)
  have pos: "distinct (map id' (flexibleTasks tasks)) \<longrightarrow>
          (\<forall>j. length sugg \<le> j \<and> j < length (flexibleTasks tasks) \<longrightarrow>
             id' (flexibleTasks tasks ! j) \<notin> fst ` set sugg)"
  proof (intro impI allI)
    fix j assume d: "distinct (map id' (flexibleTasks tasks))"
      and j: "length sugg \<le> j \<and> j < length (flexibleTasks tasks)"
    from distinct_nth_notin_take [OF d, of "length sugg" j] j
    have "id' (flexibleTasks tasks ! j) \<notin> set (take (length sugg) (map id' (flexibleTasks tasks)))"
      by simp
    moreover have "fst ` set sugg = set (map fst sugg)" by simp
    ultimately show "id' (flexibleTasks tasks ! j) \<notin> fst ` set sugg"
      unfolding ids by (simp add: take_map)
  qed
  have upd: "\<forall>k<length tasks.
           (completed (tasks ! k) \<or> type' (tasks ! k) \<noteq> Flexible \<longrightarrow> r ! k = tasks ! k)
         \<and> (\<not> completed (tasks ! k) \<and> type' (tasks ! k) = Flexible
              \<and> id' (tasks ! k) \<notin> fst ` set sugg
              \<longrightarrow> r ! k = (tasks ! k)\<lparr>suggestedTime := None\<rparr>)"
  proof (intro allI impI conjI)
    fix k assume k: "k < length tasks"
      and c: "completed (tasks ! k) \<or> type' (tasks ! k) \<noteq> Flexible"
    then show "r ! k = tasks ! k"
      by (auto simp: r_def applySuggestion_def)
  next
    fix k assume k: "k < length tasks"
      and f: "\<not> completed (tasks ! k) \<and> type' (tasks ! k) = Flexible
              \<and> id' (tasks ! k) \<notin> fst ` set sugg"
    with k have "tasks ! k \<in> set (flexibleTasks tasks)" by (simp add: flexibleTasks_def)
    then have ne: "flexibleTasks tasks \<noteq> []" by auto
    from f have "find (\<lambda>s. fst s = id' (tasks ! k)) sugg = None"
      by (force simp: find_None_iff)
    with f k ne show "r ! k = (tasks ! k)\<lparr>suggestedTime := None\<rparr>"
      by (simp add: r_def applySuggestion_def)
  qed
  from o s len ids pos upd show ?thesis by blast
qed

theorem stale_suggestions_cleared_witness:
  "list_all validTask busyTasks
   \<and> suggestedTime (busyTasks ! 1) = Some ''10:00''
   \<and> suggestions busyTasks = Some []
   \<and> (\<exists>toast r. optimizeSchedule busyTasks = Some (toast, r)
         \<and> r ! 0 = busyTasks ! 0
         \<and> r ! 1 = (busyTasks ! 1)\<lparr>suggestedTime := None\<rparr>)"
proof -
  have l: "list_all validTask busyTasks" by code_simp
  then have v: "\<forall>t\<in>set busyTasks. validTask t" by (simp only: list_all_iff)
  have st: "suggestedTime (busyTasks ! 1) = Some ''10:00''"
    by (simp add: busyTasks_def flexTask_def)
  have s: "suggestions busyTasks = Some []" by code_simp
  have f0: "type' (busyTasks ! 0) \<noteq> Flexible" by (simp add: busyTasks_def timedTask_def)
  have f1: "\<not> completed (busyTasks ! 1) \<and> type' (busyTasks ! 1) = Flexible"
    by (simp add: busyTasks_def flexTask_def)
  have len: "length busyTasks = 2" by (simp add: busyTasks_def)
  from stale_suggestions_cleared [OF v] obtain toast r sugg where
    o: "optimizeSchedule busyTasks = Some (toast, r)"
    and sg: "suggestions busyTasks = Some sugg"
    and upd: "\<forall>k<length busyTasks.
           (completed (busyTasks ! k) \<or> type' (busyTasks ! k) \<noteq> Flexible \<longrightarrow> r ! k = busyTasks ! k)
         \<and> (\<not> completed (busyTasks ! k) \<and> type' (busyTasks ! k) = Flexible
              \<and> id' (busyTasks ! k) \<notin> fst ` set sugg
              \<longrightarrow> r ! k = (busyTasks ! k)\<lparr>suggestedTime := None\<rparr>)"
    by blast
  from s sg have e: "sugg = []" by simp
  from upd len f0 have r0: "r ! 0 = busyTasks ! 0" by simp
  from upd len f1 e have r1: "r ! 1 = (busyTasks ! 1)\<lparr>suggestedTime := None\<rparr>" by simp
  from o r0 r1 have "\<exists>toast r. optimizeSchedule busyTasks = Some (toast, r)
         \<and> r ! 0 = busyTasks ! 0
         \<and> r ! 1 = (busyTasks ! 1)\<lparr>suggestedTime := None\<rparr>" by blast
  with l st s show ?thesis by - (intro conjI; assumption)
qed

subsection \<open>The scenario of two timed tasks\<close>

lemma parse_0800: "timeToMinutes ''08:00'' = Some 480"
  by code_simp

lemma parse_0900: "timeToMinutes ''09:00'' = Some 540"
  by code_simp

lemma parse_1200: "timeToMinutes ''12:00'' = Some 720"
  by code_simp

lemma parse_1300: "timeToMinutes ''13:00'' = Some 780"
  by code_simp

lemma print_0700: "minutesToTime 420 = ''07:00''"
  by code_simp

lemma addVirtualTasks_scenario:
  "addVirtualTasks [(480, 540), (720, 780)]
     = [(0, 360), (360, 420), (480, 540), (720, 780), (1380, 1440)]"
  by (simp add: addVirtualTasks_def hasTaskIn_def block_defs)

lemma findGaps_scenario:
  "findGaps WORK_START [(0, 360), (360, 420), (480, 540), (720, 780), (1380, 1440)]
     = [(420, 480), (540, 720), (780, 1380)]"
  by (simp add: block_defs)

lemma assignSlots_scenario:
  "assignSlots [f] [(420, 480), (540, 720), (780, 1380)] 0 = [(id' f, ''07:00'')]"
  by (simp add: skipSlots.simps [of _ 0] Let_def print_0700)

text \<open>
  Claim C2. When the non-completed tasks with a start time are two tasks occupying
  08:00 to 09:00 and 12:00 to 13:00, and one non-completed flexible task exists, a
  pass adds the sleep blocks \<open>[23:00, 24:00)\<close> and \<open>[00:00, 06:00)\<close> and the morning
  block \<open>[06:00, 07:00)\<close> to the occupied intervals, finds 07:00 to 08:00 as the first
  free slot of the working window, and gives the flexible task the suggested time
  \<^verbatim>\<open>07:00\<close>.
\<close>

theorem scenario_first_gap:
  assumes "filter (\<lambda>task. truthy (startTime task) \<and> \<not> completed task) tasks \<in> {[a, b], [b, a]}"
    and "startTime a = Some ''08:00''" and "endTime a \<in> {None, Some [], Some ''09:00''}"
    and "startTime b = Some ''12:00''" and "endTime b \<in> {None, Some [], Some ''13:00''}"
    and "flexibleTasks tasks = [f]"
  shows "occupied tasks = Some [(0, 360), (360, 420), (480, 540), (720, 780), (1380, 1440)]
     \<and> availableSlots tasks = Some [(420, 480), (540, 720), (780, 1380)]
     \<and> suggestions tasks = Some [(id' f, ''07:00'')]
     \<and> optimizeSchedule tasks
         = Some (ScheduleOptimized 1, map (applySuggestion [(id' f, ''07:00'')]) tasks)
     \<and> applySuggestion [(id' f, ''07:00'')] f = f\<lparr>suggestedTime := Some ''07:00''\<rparr>"
proof -
  from assms(2,3) have a: "toInterval a = Some (480, 540)"
    by (auto simp: toInterval_def endMinutes_def parse_0800 parse_0900)
  from assms(4,5) have b: "toInterval b = Some (720, 780)"
    by (auto simp: toInterval_def endMinutes_def parse_1200 parse_1300)
  from assms(1) a b have "scheduledTasks tasks = Some [(480, 540), (720, 780)]"
    by (auto simp: scheduledTasks_def)
  then have occ: "occupied tasks = Some [(0, 360), (360, 420), (480, 540), (720, 780), (1380, 1440)]"
    by (simp add: occupied_def addVirtualTasks_scenario)
  then have av: "availableSlots tasks = Some [(420, 480), (540, 720), (780, 1380)]"
    by (simp add: availableSlots_def findGaps_scenario del: findGaps.simps)
  then have sg: "suggestions tasks = Some [(id' f, ''07:00'')]"
    by (simp add: suggestions_def assms(6) assignSlots_scenario del: assignSlots.simps)
  from assms(6) have opt: "optimizeSchedule tasks
         = Some (ScheduleOptimized 1, map (applySuggestion [(id' f, ''07:00'')]) tasks)"
    by (simp add: optimizeSchedule_def sg)
  have "f \<in> set (flexibleTasks tasks)" by (simp add: assms(6))
  then have "type' f = Flexible \<and> \<not> completed f" by (simp add: flexibleTasks_def)
  then have ap: "applySuggestion [(id' f, ''07:00'')] f = f\<lparr>suggestedTime := Some ''07:00''\<rparr>"
    by (simp add: applySuggestion_def)
  from occ av sg opt ap show ?thesis by simp
qed

theorem scenario_first_gap_witness:
  "filter (\<lambda>task. truthy (startTime task) \<and> \<not> completed task) scenarioTasks
      \<in> {[timedTask ''1'' ''08:00'' (Some ''09:00'') Work, timedTask ''2'' ''12:00'' (Some ''13:00'') Work],
          [timedTask ''2'' ''12:00'' (Some ''13:00'') Work, timedTask ''1'' ''08:00'' (Some ''09:00'') Work]}
   \<and> flexibleTasks scenarioTasks = [flexTask ''3'' None]
   \<and> occupied scenarioTasks = Some [(0, 360), (360, 420), (480, 540), (720, 780), (1380, 1440)]
   \<and> availableSlots scenarioTasks = Some [(420, 480), (540, 720), (780, 1380)]
   \<and> optimizeSchedule scenarioTasks
       = Some (ScheduleOptimized 1,
           [timedTask ''1'' ''08:00'' (Some ''09:00'') Work,
            timedTask ''2'' ''12:00'' (Some ''13:00'') Work,
            flexTask ''3'' (Some ''07:00'')])"
proof -
  let ?a = "timedTask ''1'' ''08:00'' (Some ''09:00'') Work"
  let ?b = "timedTask ''2'' ''12:00'' (Some ''13:00'') Work"
  let ?f = "flexTask ''3'' None"
  have h1: "filter (\<lambda>task. truthy (startTime task) \<and> \<not> completed task) scenarioTasks
      \<in> {[?a, ?b], [?b, ?a]}"
    by (simp add: scenarioTasks_def timedTask_def flexTask_def truthy_def)
  have h2: "startTime ?a = Some ''08:00''" by (simp add: timedTask_def)
  have h3: "endTime ?a \<in> {None, Some [], Some ''09:00''}" by (simp add: timedTask_def)
  have h4: "startTime ?b = Some ''12:00''" by (simp add: timedTask_def)
  have h5: "endTime ?b \<in> {None, Some [], Some ''13:00''}" by (simp add: timedTask_def)
  have h6: "flexibleTasks scenarioTasks = [?f]"
    by (simp add: scenarioTasks_def timedTask_def flexTask_def flexibleTasks_def)
  have m: "map (applySuggestion [(id' ?f, ''07:00'')]) scenarioTasks
      = [?a, ?b, flexTask ''3'' (Some ''07:00'')]"
    by (simp add: scenarioTasks_def timedTask_def flexTask_def applySuggestion_def)
  from scenario_first_gap [OF h1 h2 h3 h4 h5 h6]
  have occ: "occupied scenarioTasks = Some [(0, 360), (360, 420), (480, 540), (720, 780), (1380, 1440)]"
    and av: "availableSlots scenarioTasks = Some [(420, 480), (540, 720), (780, 1380)]"
    and opt: "optimizeSchedule scenarioTasks
         = Some (ScheduleOptimized 1, map (applySuggestion [(id' ?f, ''07:00'')]) scenarioTasks)"
    by simp_all
  from opt m have opt': "optimizeSchedule scenarioTasks
       = Some (ScheduleOptimized 1, [?a, ?b, flexTask ''3'' (Some ''07:00'')])" by simp
  from h1 h6 occ av opt' show ?thesis by - (intro conjI; assumption)
qed

subsection \<open>The random form assigns every active flexible task\<close>

lemma randomSuggestions_ids:
  "map id' (randomSuggestions rnd ftasks) = map id' ftasks"
proof -
  have "map id' (randomSuggestions rnd ftasks) = map (id' \<circ> snd) (enumerate 0 ftasks)"
    by (simp add: randomSuggestions_def Let_def case_prod_beta comp_def)
  then show ?thesis by (simp add: map_snd_enumerate flip: map_map)
qed

lemma randomSuggestions_Some:
  "s \<in> set (randomSuggestions rnd ftasks) \<Longrightarrow> \<exists>v. suggestedTime s = Some v"
  by (auto simp: randomSuggestions_def Let_def)

lemma optimizeSchedule_random_assigns_all:
  assumes "optimizeSchedule_random rnd tasks = (toast, r)" and "k < length tasks"
  shows "length r = length tasks"
    and "completed (tasks ! k) \<or> type' (tasks ! k) \<noteq> Flexible \<Longrightarrow> r ! k = tasks ! k"
    and "\<not> completed (tasks ! k) \<and> type' (tasks ! k) = Flexible \<Longrightarrow>
           \<exists>v. r ! k = (tasks ! k)\<lparr>suggestedTime := Some v\<rparr>"
proof -
  let ?sg = "randomSuggestions rnd (flexibleTasks tasks)"
  from assms(1) have r: "r = (if flexibleTasks tasks = [] then tasks
      else map (applyRandomSuggestion ?sg) tasks)"
    by (auto simp: optimizeSchedule_random_def Let_def split: if_splits)
  then show "length r = length tasks" by simp
  show "r ! k = tasks ! k" if "completed (tasks ! k) \<or> type' (tasks ! k) \<noteq> Flexible"
    using that assms(2) by (auto simp: r applyRandomSuggestion_def)
  show "\<exists>v. r ! k = (tasks ! k)\<lparr>suggestedTime := Some v\<rparr>"
    if f: "\<not> completed (tasks ! k) \<and> type' (tasks ! k) = Flexible"
  proof -
    from f assms(2) have mem: "tasks ! k \<in> set (flexibleTasks tasks)"
      by (simp add: flexibleTasks_def)
    then have ne: "flexibleTasks tasks \<noteq> []" by auto
    from mem have "id' (tasks ! k) \<in> set (map id' ?sg)"
      by (simp add: randomSuggestions_ids)
    then obtain s0 where "s0 \<in> set ?sg" "id' s0 = id' (tasks ! k)" by auto
    then have "find (\<lambda>s. id' s = id' (tasks ! k)) ?sg \<noteq> None"
      by (auto simp: find_None_iff)
    then obtain s where s: "find (\<lambda>s. id' s = id' (tasks ! k)) ?sg = Some s" by auto
    then have "s \<in> set ?sg" by (auto simp: find_Some_iff)
    from randomSuggestions_Some [OF this] obtain v where "suggestedTime s = Some v" by blast
    with s f ne assms(2) show ?thesis
      by (auto simp: r applyRandomSuggestion_def)
  qed
qed

end
